theory Spec2Isabelle
  imports Complex_Main "HOL-Library.AList" "HOL-Library.Multiset"
begin

section \<open>Numbers\<close>

text \<open>
  The scripts compute with Python floats. Here a float is a real number: every
  arithmetic operation is the exact one, and a comparison is the comparison of the
  exact values. What the claims below say is about order, sums of integers and the
  control flow of the scripts; where binary rounding could matter it is said at the
  definition.

  Python's \<^verbatim>\<open>round(x, 2)\<close> rounds to the nearest multiple of 0.01, a tie going to the
  even hundredth.
\<close>

definition round_half_even :: "real \<Rightarrow> int" where
  "round_half_even x =
     (let n = \<lfloor>x\<rfloor>; f = x - of_int n
      in if f < 1/2 then n else if f > 1/2 then n + 1 else if even n then n else n + 1)"

definition round2 :: "real \<Rightarrow> real" where
  "round2 x = of_int (round_half_even (x * 100)) / 100"

section \<open>Dictionaries\<close>

text \<open>
  A Python dict is an association list in insertion order; \<^verbatim>\<open>d.get(k, v)\<close> is
  \<open>dict_get d k v\<close>, \<^verbatim>\<open>k in d\<close> is \<open>dict_has d k\<close>, and \<^verbatim>\<open>d[k] = v\<close> is
  \<^const>\<open>AList.update\<close>, which overwrites the entry of a key already present and appends
  a new key at the end.
\<close>

definition dict_get :: "('k \<times> 'v) list \<Rightarrow> 'k \<Rightarrow> 'v \<Rightarrow> 'v" where
  "dict_get d k dflt = (case map_of d k of None \<Rightarrow> dflt | Some v \<Rightarrow> v)"

definition dict_has :: "('k \<times> 'v) list \<Rightarrow> 'k \<Rightarrow> bool" where
  "dict_has d k = (map_of d k \<noteq> None)"

section \<open>The final lookup table (build\_lookup\_final.py, "Generate final results")\<close>

text \<open>
  A row of \<^verbatim>\<open>results\<close> is the tuple
  \<^verbatim>\<open>(atar, agg, band_students[band], cumulative[band], cumulative pct)\<close>.
\<close>

record result_row =
  row_atar :: real
  row_agg :: real
  row_students :: int
  row_cumulative :: int
  row_cum_pct :: real

definition TOTAL_STUDENTS :: int where
  "TOTAL_STUDENTS = 30167"

text \<open>
  \<^verbatim>\<open>
  results = []
  for band in sorted_bands:
      atar = band
      agg = round(float(agg_lookup.get(atar, 0)), 2)
      results.append((atar, agg, band_students[band], cumulative[band],
                      round(cumulative[band] / TOTAL_STUDENTS * 100, 2)))
  \<close>
  \<^verbatim>\<open>sorted_bands\<close> are the keys of \<^verbatim>\<open>band_students\<close> and of \<^verbatim>\<open>cumulative\<close>, so the two
  subscripts never raise; they are read with \<^const>\<open>dict_get\<close>.
\<close>

definition build_results ::
  "(real \<times> real) list \<Rightarrow> (real \<times> int) list \<Rightarrow> (real \<times> int) list \<Rightarrow> real list
     \<Rightarrow> result_row list" where
  "build_results agg_lookup band_students cumulative sorted_bands =
     map (\<lambda>band.
        \<lparr> row_atar = band,
          row_agg = round2 (dict_get agg_lookup band 0),
          row_students = dict_get band_students band 0,
          row_cumulative = dict_get cumulative band 0,
          row_cum_pct =
            round2 (of_int (dict_get cumulative band 0) / of_int TOTAL_STUDENTS * 100) \<rparr>)
       sorted_bands"

text \<open>
  The repair of rounding ties:
  \<^verbatim>\<open>
  for i in range(1, len(results)):
      if results[i][1] >= results[i-1][1]:
          fixed_agg = round(results[i-1][1] - 0.01, 2)
          results[i] = (results[i][0], fixed_agg, results[i][2], results[i][3], results[i][4])
  \<close>
  The loop writes in place, so row \<open>i - 1\<close> is read after its own repair:
  \<open>fix_from prev rs\<close> carries that row along.
\<close>

fun fix_from :: "result_row \<Rightarrow> result_row list \<Rightarrow> result_row list" where
  "fix_from prev [] = []"
| "fix_from prev (r # rs) =
     (let r' = (if row_agg r \<ge> row_agg prev
                then r\<lparr>row_agg := round2 (row_agg prev - 1/100)\<rparr> else r)
      in r' # fix_from r' rs)"

definition fix_rounding_ties :: "result_row list \<Rightarrow> result_row list" where
  "fix_rounding_ties results =
     (case results of [] \<Rightarrow> [] | r # rs \<Rightarrow> r # fix_from r rs)"

text \<open>
  \<^verbatim>\<open>
  final_violations = 0
  for i in range(1, len(results)):
      if results[i][1] >= results[i-1][1]:
          final_violations += 1
  \<close>
\<close>

fun violations_from :: "result_row \<Rightarrow> result_row list \<Rightarrow> nat" where
  "violations_from prev [] = 0"
| "violations_from prev (r # rs) =
     (if row_agg r \<ge> row_agg prev then 1 else 0) + violations_from r rs"

definition final_violations :: "result_row list \<Rightarrow> nat" where
  "final_violations results =
     (case results of [] \<Rightarrow> 0 | r # rs \<Rightarrow> violations_from r rs)"

text \<open>
  The table is built over the bands of \<^verbatim>\<open>band_students\<close>, highest first, with their
  running totals:
  \<^verbatim>\<open>
  sorted_bands = sorted(band_students.keys(), reverse=True)
  cumulative = {}
  running = 0
  for band in sorted_bands:
      running += band_students[band]
      cumulative[band] = running
  \<close>
\<close>

definition sorted_bands_of :: "(real \<times> int) list \<Rightarrow> real list" where
  "sorted_bands_of band_students = rev (sort (map fst band_students))"

fun cumulative_loop ::
  "(real \<times> int) list \<Rightarrow> real list \<Rightarrow> int \<Rightarrow> (real \<times> int) list
     \<Rightarrow> (real \<times> int) list \<times> int" where
  "cumulative_loop band_students [] running cumulative = (cumulative, running)"
| "cumulative_loop band_students (band # rest) running cumulative =
     (let running' = running + dict_get band_students band 0
      in cumulative_loop band_students rest running'
           (AList.update band running' cumulative))"

definition final_results :: "(real \<times> real) list \<Rightarrow> (real \<times> int) list \<Rightarrow> result_row list" where
  "final_results agg_lookup band_students =
     (let sorted_bands = sorted_bands_of band_students;
          cumulative = fst (cumulative_loop band_students sorted_bands 0 [])
      in fix_rounding_ties (build_results agg_lookup band_students cumulative sorted_bands))"

section \<open>The inverse lookup (build\_lookup\_final.py, cross-check 2)\<close>

text \<open>
  \<^verbatim>\<open>
  results_by_agg = sorted(results, key=lambda x: x[1])
  rev_aggs = np.array([r[1] for r in results_by_agg])
  rev_atars = np.array([r[0] for r in results_by_agg])
  \<close>
  Python's \<^verbatim>\<open>sorted\<close> is stable, and so is \<^const>\<open>sort_key\<close>.
\<close>

definition results_by_agg :: "result_row list \<Rightarrow> result_row list" where
  "results_by_agg results = sort_key row_agg results"

definition rev_aggs :: "result_row list \<Rightarrow> real list" where
  "rev_aggs results = map row_agg (results_by_agg results)"

definition rev_atars :: "result_row list \<Rightarrow> real list" where
  "rev_atars results = map row_atar (results_by_agg results)"

text \<open>
  \<^verbatim>\<open>np.searchsorted(a, v)\<close> on an ascending array is the first index \<open>i\<close> with
  \<open>v \<le> a[i]\<close>, the length when there is none. \<^verbatim>\<open>rev_aggs\<close> is ascending, being sorted.
\<close>

definition searchsorted :: "real list \<Rightarrow> real \<Rightarrow> nat" where
  "searchsorted a v = length (takeWhile (\<lambda>x. x < v) a)"

datatype py_error = IndexError

text \<open>
  \<^verbatim>\<open>
  def agg_to_atar_2025(aggregate):
      if aggregate <= rev_aggs[0]:
          return rev_atars[0]
      if aggregate >= rev_aggs[-1]:
          return rev_atars[-1]
      idx = np.searchsorted(rev_aggs, aggregate)
      lo, hi = idx - 1, idx
      frac = (aggregate - rev_aggs[lo]) / (rev_aggs[hi] - rev_aggs[lo])
      return rev_atars[lo] + frac * (rev_atars[hi] - rev_atars[lo])
  \<close>
  The two module-level arrays are parameters here. On an empty table \<^verbatim>\<open>rev_aggs[0]\<close>
  raises. Past the two guards \<open>1 \<le> idx\<close>, so \<open>idx - 1\<close> is not negative, and
  \<open>rev_aggs[lo] < aggregate \<le> rev_aggs[hi]\<close>, so the divisor is not zero.
\<close>

definition agg_to_atar_2025 :: "real list \<Rightarrow> real list \<Rightarrow> real \<Rightarrow> py_error + real" where
  "agg_to_atar_2025 aggs atars aggregate =
     (if aggs = [] then Inl IndexError
      else if aggregate \<le> aggs ! 0 then Inr (atars ! 0)
      else if aggregate \<ge> last aggs then Inr (last atars)
      else
        (let idx = searchsorted aggs aggregate;
             lo = idx - 1; hi = idx;
             frac = (aggregate - aggs ! lo) / (aggs ! hi - aggs ! lo)
         in Inr (atars ! lo + frac * (atars ! hi - atars ! lo))))"

section \<open>Rounding to hundredths\<close>

lemma round_half_even_of_int: "round_half_even (of_int k) = k"
  by (simp add: round_half_even_def)

lemma round_half_even_near: "\<bar>of_int (round_half_even x) - x\<bar> \<le> 1/2"
  unfolding round_half_even_def Let_def by (auto; linarith)

lemma round2_near: "\<bar>round2 x - x\<bar> \<le> 1/200"
proof -
  have "\<bar>of_int (round_half_even (x * 100)) - x * 100\<bar> \<le> 1/2"
    by (rule round_half_even_near)
  then show ?thesis
    unfolding round2_def by (simp add: field_simps abs_le_iff)
qed

lemma round2_below: "round2 (x - 1/100) < x"
proof -
  have "\<bar>round2 (x - 1/100) - (x - 1/100)\<bar> \<le> 1/200"
    by (rule round2_near)
  then show ?thesis by linarith
qed

lemma round2_hundredth: "round2 (of_int k / 100) = of_int k / 100"
  by (simp add: round2_def round_half_even_of_int)

lemma round2_fixed_step:
  assumes "round2 x = x"
  shows "round2 (x - 1/100) = x - 1/100"
proof -
  define k where "k = round_half_even (x * 100)"
  have x: "x = of_int k / 100"
    using assms by (simp add: round2_def k_def)
  have "x - 1/100 = of_int (k - 1) / 100"
    by (simp add: x field_simps)
  then show ?thesis
    by (simp only: round2_hundredth)
qed

lemma round2_idem: "round2 (round2 x) = round2 x"
  unfolding round2_def [of x] by (rule round2_hundredth)

section \<open>The repair pass makes the table strictly decreasing\<close>

lemma fix_from_length: "length (fix_from p rs) = length rs"
  by (induction rs arbitrary: p) (simp_all add: Let_def)

lemma fix_from_nth_agg:
  "i < length rs \<Longrightarrow>
   row_agg (fix_from p rs ! i) =
     (if row_agg (rs ! i) \<ge> row_agg (if i = 0 then p else fix_from p rs ! (i - 1))
      then round2 (row_agg (if i = 0 then p else fix_from p rs ! (i - 1)) - 1/100)
      else row_agg (rs ! i))"
proof (induction rs arbitrary: p i)
  case Nil
  then show ?case by simp
next
  case (Cons r rs)
  show ?case
  proof (cases i)
    case 0
    then show ?thesis by (simp add: Let_def)
  next
    case (Suc j)
    then have j: "j < length rs" using Cons.prems by simp
    show ?thesis
      using Cons.IH [OF j] Suc by (cases j) (simp_all add: Let_def)
  qed
qed

lemma fix_from_other_fields:
  "map row_atar (fix_from p rs) = map row_atar rs \<and>
   map row_students (fix_from p rs) = map row_students rs \<and>
   map row_cumulative (fix_from p rs) = map row_cumulative rs \<and>
   map row_cum_pct (fix_from p rs) = map row_cum_pct rs"
  by (induction rs arbitrary: p) (simp_all add: Let_def)

lemma fix_from_hundredths:
  "round2 (row_agg p) = row_agg p \<Longrightarrow> \<forall>r \<in> set rs. round2 (row_agg r) = row_agg r \<Longrightarrow>
   \<forall>r \<in> set (fix_from p rs). round2 (row_agg r) = row_agg r"
proof (induction rs arbitrary: p)
  case Nil
  then show ?case by simp
next
  case (Cons r rs)
  define r' where "r' = (if row_agg r \<ge> row_agg p
                then r\<lparr>row_agg := round2 (row_agg p - 1/100)\<rparr> else r)"
  have r': "round2 (row_agg r') = row_agg r'"
    using Cons.prems by (simp add: r'_def round2_idem)
  have "\<forall>x \<in> set (fix_from r' rs). round2 (row_agg x) = row_agg x"
    using Cons.IH [OF r'] Cons.prems by simp
  then show ?case
    using r' by (simp add: Let_def r'_def)
qed

lemma violations_from_fix: "violations_from p (fix_from p rs) = 0"
  by (induction rs arbitrary: p) (simp_all add: Let_def round2_below not_le)

lemma final_violations_fix: "final_violations (fix_rounding_ties rs) = 0"
  by (cases rs) (simp_all add: final_violations_def fix_rounding_ties_def violations_from_fix)

lemma fix_ties_length: "length (fix_rounding_ties rs) = length rs"
  by (cases rs) (simp_all add: fix_rounding_ties_def fix_from_length)

lemma fix_ties_nth_agg:
  assumes "Suc i < length rs"
  shows "row_agg (fix_rounding_ties rs ! Suc i) =
     (if row_agg (rs ! Suc i) \<ge> row_agg (fix_rounding_ties rs ! i)
      then round2 (row_agg (fix_rounding_ties rs ! i) - 1/100)
      else row_agg (rs ! Suc i))"
proof (cases rs)
  case Nil
  then show ?thesis using assms by simp
next
  case (Cons r rest)
  then have i: "i < length rest" using assms by simp
  show ?thesis
    using fix_from_nth_agg [OF i, of r] Cons
    by (cases i) (simp_all add: fix_rounding_ties_def)
qed

lemma fix_ties_hundredths:
  "\<forall>r \<in> set rs. round2 (row_agg r) = row_agg r \<Longrightarrow>
   \<forall>r \<in> set (fix_rounding_ties rs). round2 (row_agg r) = row_agg r"
  using fix_from_hundredths [of "hd rs" "tl rs"]
  by (cases rs) (simp_all add: fix_rounding_ties_def)

lemma fix_ties_strict:
  assumes "Suc i < length rs"
  shows "row_agg (fix_rounding_ties rs ! Suc i) < row_agg (fix_rounding_ties rs ! i)"
  using fix_ties_nth_agg [OF assms] round2_below [of "row_agg (fix_rounding_ties rs ! i)"]
  by (simp split: if_splits)

lemma build_results_hundredths:
  "\<forall>r \<in> set (build_results L B C bands). round2 (row_agg r) = row_agg r"
  by (simp add: build_results_def round2_idem)

text \<open>
  Claim C1. The rows of the final table run from the highest band to the lowest. After the
  repair pass every row's aggregate is strictly below the aggregate of the row before it,
  the script's own count of violations is 0, and a row the pass rewrote holds the
  aggregate of the row before it minus 0.01; a row it did not rewrite keeps the aggregate
  it was built with. Bands and the number of rows are unchanged.
\<close>

theorem final_table_strictly_decreasing:
  "final_violations
     (fix_rounding_ties (build_results agg_lookup band_students cumulative sorted_bands)) = 0
   \<and> map row_atar
       (fix_rounding_ties (build_results agg_lookup band_students cumulative sorted_bands))
     = sorted_bands
   \<and> (\<forall>i. Suc i < length sorted_bands \<longrightarrow>
        row_agg (fix_rounding_ties
                   (build_results agg_lookup band_students cumulative sorted_bands) ! Suc i)
          < row_agg (fix_rounding_ties
                   (build_results agg_lookup band_students cumulative sorted_bands) ! i)
        \<and> row_agg (fix_rounding_ties
                   (build_results agg_lookup band_students cumulative sorted_bands) ! Suc i)
          = (if row_agg (build_results agg_lookup band_students cumulative sorted_bands ! Suc i)
                \<ge> row_agg (fix_rounding_ties
                   (build_results agg_lookup band_students cumulative sorted_bands) ! i)
             then row_agg (fix_rounding_ties
                   (build_results agg_lookup band_students cumulative sorted_bands) ! i) - 1/100
             else row_agg
                   (build_results agg_lookup band_students cumulative sorted_bands ! Suc i)))"
proof -
  define built where
    "built = build_results agg_lookup band_students cumulative sorted_bands"
  define final where "final = fix_rounding_ties built"
  have len: "length built = length sorted_bands"
    by (simp add: built_def build_results_def)
  have atars: "map row_atar final = sorted_bands"
  proof (cases built)
    case Nil
    then show ?thesis using len by (simp add: final_def fix_rounding_ties_def)
  next
    case (Cons r rs)
    have "map row_atar final = map row_atar built"
      using fix_from_other_fields [of r rs] Cons
      by (simp add: final_def fix_rounding_ties_def)
    also have "\<dots> = sorted_bands"
      by (simp add: built_def build_results_def comp_def)
    finally show ?thesis .
  qed
  have cents: "\<forall>r \<in> set final. round2 (row_agg r) = row_agg r"
    unfolding final_def built_def
    by (rule fix_ties_hundredths) (rule build_results_hundredths)
  have step: "row_agg (final ! Suc i) < row_agg (final ! i)
      \<and> row_agg (final ! Suc i)
          = (if row_agg (built ! Suc i) \<ge> row_agg (final ! i)
             then row_agg (final ! i) - 1/100 else row_agg (built ! Suc i))"
    if i: "Suc i < length sorted_bands" for i
  proof -
    have i': "Suc i < length built" using i len by simp
    have "final ! i \<in> set final"
      using i' by (simp add: final_def fix_ties_length)
    then have "round2 (row_agg (final ! i)) = row_agg (final ! i)"
      using cents by blast
    then have "round2 (row_agg (final ! i) - 1/100) = row_agg (final ! i) - 1/100"
      by (rule round2_fixed_step)
    then show ?thesis
      using fix_ties_strict [OF i'] fix_ties_nth_agg [OF i']
      by (simp add: final_def)
  qed
  have "final_violations final = 0"
    by (simp add: final_def final_violations_fix)
  then show ?thesis
    using atars step unfolding final_def built_def by blast
qed

theorem final_table_strictly_decreasing_witness:
  "map row_agg
     (fix_rounding_ties
        (build_results [(9995/100, 480004/1000), (999/10, 480001/1000), (9985/100, 4795/10)]
           [(9995/100, 37), (999/10, 37), (9985/100, 38)]
           [(9995/100, 37), (999/10, 74), (9985/100, 112)]
           [9995/100, 999/10, 9985/100]))
     = [480, 47999/100, 4795/10]
   \<and> final_violations
     (fix_rounding_ties
        (build_results [(9995/100, 480004/1000), (999/10, 480001/1000), (9985/100, 4795/10)]
           [(9995/100, 37), (999/10, 37), (9985/100, 38)]
           [(9995/100, 37), (999/10, 74), (9985/100, 112)]
           [9995/100, 999/10, 9985/100])) = 0"
  using final_table_strictly_decreasing
    [of "[(9995/100, 480004/1000), (999/10, 480001/1000), (9985/100, 4795/10)]"
        "[(9995/100, 37), (999/10, 37), (9985/100, 38)]"
        "[(9995/100, 37), (999/10, 74), (9985/100, 112)]"
        "[9995/100, 999/10, 9985/100]"]
  by (simp add: build_results_def fix_rounding_ties_def dict_get_def round2_def
      round_half_even_def Let_def)

section \<open>The sorted table and the search\<close>

lemma insort_key_snoc:
  "\<forall>y \<in> set ys. f y < f x \<Longrightarrow> insort_key f x ys = ys @ [x]"
  by (induction ys) (auto simp: not_le)

lemma sort_key_strict_desc:
  "sorted_wrt (\<lambda>a b. f b < (f a :: real)) xs \<Longrightarrow> sort_key f xs = rev xs"
  by (induction xs) (simp_all add: insort_key_snoc)

lemma fix_ties_sorted_wrt:
  "sorted_wrt (\<lambda>a b. row_agg b < row_agg a) (fix_rounding_ties rs)"
proof -
  have tr: "transp (\<lambda>a b. row_agg b < row_agg a)"
    by (auto simp: transp_def)
  show ?thesis
    unfolding sorted_wrt_iff_nth_Suc_transp [OF tr]
    by (simp add: fix_ties_length fix_ties_strict)
qed

lemma results_by_agg_fix:
  "results_by_agg (fix_rounding_ties rs) = rev (fix_rounding_ties rs)"
  unfolding results_by_agg_def by (rule sort_key_strict_desc) (rule fix_ties_sorted_wrt)

lemma rev_aggs_strict: "sorted_wrt (<) (rev_aggs (fix_rounding_ties rs))"
  using fix_ties_sorted_wrt [of rs]
  by (simp add: rev_aggs_def results_by_agg_fix sorted_wrt_map sorted_wrt_rev rev_map [symmetric])

lemma searchsorted_mono: "a \<le> b \<Longrightarrow> searchsorted xs a \<le> searchsorted xs b"
  unfolding searchsorted_def by (induction xs) auto

lemma searchsorted_segment:
  assumes "xs \<noteq> []" "xs ! 0 < v" "v < last xs"
  shows "0 < searchsorted xs v \<and> searchsorted xs v < length xs
       \<and> xs ! (searchsorted xs v - 1) < v \<and> v \<le> xs ! searchsorted xs v"
proof -
  let ?i = "searchsorted xs v"
  have pos: "0 < ?i"
    using assms(1,2) by (cases xs) (simp_all add: searchsorted_def)
  have lt: "?i < length xs"
  proof (rule ccontr)
    assume "\<not> ?i < length xs"
    then have "length (takeWhile (\<lambda>x. x < v) xs) = length xs"
      using length_takeWhile_le [of "\<lambda>x. x < v" xs] by (simp add: searchsorted_def)
    then have "takeWhile (\<lambda>x. x < v) xs = xs"
      by (metis takeWhile_eq_take take_all order_refl)
    then have "\<forall>x \<in> set xs. x < v"
      by (metis set_takeWhileD)
    then have "last xs < v" using assms(1) by simp
    then show False using assms(3) by simp
  qed
  have below: "xs ! (?i - 1) < v"
  proof -
    have "?i - 1 < length (takeWhile (\<lambda>x. x < v) xs)"
      using pos by (simp add: searchsorted_def)
    then have "takeWhile (\<lambda>x. x < v) xs ! (?i - 1) = xs ! (?i - 1)"
      and "takeWhile (\<lambda>x. x < v) xs ! (?i - 1) \<in> set (takeWhile (\<lambda>x. x < v) xs)"
      by (rule takeWhile_nth, rule nth_mem)
    then show ?thesis by (metis set_takeWhileD)
  qed
  have above: "v \<le> xs ! ?i"
    using nth_length_takeWhile [of "\<lambda>x. x < v" xs] lt
    by (simp add: searchsorted_def not_less)
  show ?thesis using pos lt below above by blast
qed

lemma searchsorted_at_element:
  assumes "sorted_wrt (<) xs" "k < length xs" "xs ! 0 < xs ! k" "xs ! k < last xs"
  shows "searchsorted xs (xs ! k) = k"
proof -
  let ?i = "searchsorted xs (xs ! k)"
  have ne: "xs \<noteq> []" using assms(2) by auto
  have seg: "0 < ?i" "?i < length xs" "xs ! (?i - 1) < xs ! k" "xs ! k \<le> xs ! ?i"
    using searchsorted_segment [OF ne assms(3,4)] by simp_all
  have "\<not> k < ?i - 1 \<and> k \<noteq> ?i - 1"
    using sorted_wrt_nth_less [OF assms(1), of k "?i - 1"] seg by force
  moreover have "\<not> ?i < k"
    using sorted_wrt_nth_less [OF assms(1), of ?i k] seg assms(2) by force
  ultimately show ?thesis using seg(1) by linarith
qed

section \<open>The piecewise-linear inverse\<close>

lemma agg_to_atar_at_row:
  assumes st: "sorted_wrt (<) aggs" and len: "length atars = length aggs"
    and k: "k < length aggs"
  shows "agg_to_atar_2025 aggs atars (aggs ! k) = Inr (atars ! k)"
proof -
  have ne: "aggs \<noteq> []" using k by auto
  have ne': "atars \<noteq> []" using ne len by auto
  have last_nth: "last aggs = aggs ! (length aggs - 1)" "last atars = atars ! (length aggs - 1)"
    using ne ne' len [symmetric] by (simp_all add: last_conv_nth)
  consider (low) "aggs ! k \<le> aggs ! 0"
    | (high) "aggs ! 0 < aggs ! k" "last aggs \<le> aggs ! k"
    | (mid) "aggs ! 0 < aggs ! k" "aggs ! k < last aggs"
    by linarith
  then show ?thesis
  proof cases
    case low
    have "k = 0"
      using sorted_wrt_nth_less [OF st, of 0 k] k low by force
    then show ?thesis using ne by (simp add: agg_to_atar_2025_def)
  next
    case high
    have "\<not> k < length aggs - 1"
      using sorted_wrt_nth_less [OF st, of k "length aggs - 1"] high(2) k last_nth(1) by force
    then have "k = length aggs - 1" using k by linarith
    then show ?thesis
      using ne high last_nth by (simp add: agg_to_atar_2025_def)
  next
    case mid
    have idx: "searchsorted aggs (aggs ! k) = k"
      by (rule searchsorted_at_element [OF st k mid])
    have kpos: "0 < k" using mid(1) by (cases k) simp_all
    have lt: "aggs ! (k - 1) < aggs ! k"
      using sorted_wrt_nth_less [OF st, of "k - 1" k] k kpos by simp
    then have "aggs ! k \<noteq> aggs ! (k - Suc 0)" by simp
    then show ?thesis
      using ne mid idx by (simp add: agg_to_atar_2025_def Let_def)
  qed
qed

lemma agg_to_atar_mid:
  assumes ne: "aggs \<noteq> []" and lo: "aggs ! 0 < v" and hi: "v < last aggs"
  shows "agg_to_atar_2025 aggs atars v =
     Inr (atars ! (searchsorted aggs v - 1)
          + (v - aggs ! (searchsorted aggs v - 1))
            / (aggs ! searchsorted aggs v - aggs ! (searchsorted aggs v - 1))
            * (atars ! searchsorted aggs v - atars ! (searchsorted aggs v - 1)))"
  using assms by (simp add: agg_to_atar_2025_def Let_def)

lemma interp_between:
  fixes t0 t1 a0 a1 v :: real
  assumes "a0 < v" "v \<le> a1" "t0 \<le> t1"
  shows "t0 \<le> t0 + (v - a0) / (a1 - a0) * (t1 - t0)"
    and "t0 + (v - a0) / (a1 - a0) * (t1 - t0) \<le> t1"
proof -
  have f: "0 \<le> (v - a0) / (a1 - a0)" "(v - a0) / (a1 - a0) \<le> 1"
    using assms by (simp_all add: field_simps)
  have "0 \<le> (v - a0) / (a1 - a0) * (t1 - t0)"
    using f(1) assms(3) by (intro mult_nonneg_nonneg) simp_all
  then show "t0 \<le> t0 + (v - a0) / (a1 - a0) * (t1 - t0)"
    by linarith
  have "(v - a0) / (a1 - a0) * (t1 - t0) \<le> 1 * (t1 - t0)"
    using f(2) assms(3) by (intro mult_right_mono) simp_all
  then have "(v - a0) / (a1 - a0) * (t1 - t0) \<le> t1 - t0" by simp
  then show "t0 + (v - a0) / (a1 - a0) * (t1 - t0) \<le> t1" by linarith
qed

lemma agg_to_atar_mid_bounds:
  assumes ne: "aggs \<noteq> []" and lo: "aggs ! 0 < v" and hi: "v < last aggs"
    and len: "length atars = length aggs" and ts: "sorted atars"
  shows "\<exists>y. agg_to_atar_2025 aggs atars v = Inr y
           \<and> atars ! (searchsorted aggs v - 1) \<le> y \<and> y \<le> atars ! searchsorted aggs v"
proof -
  let ?i = "searchsorted aggs v"
  have seg: "0 < ?i" "?i < length aggs" "aggs ! (?i - 1) < v" "v \<le> aggs ! ?i"
    using searchsorted_segment [OF ne lo hi] by simp_all
  have t: "atars ! (?i - 1) \<le> atars ! ?i"
    using ts seg(2) len by (simp add: sorted_nth_mono)
  show ?thesis
    unfolding agg_to_atar_mid [OF ne lo hi]
    using interp_between [OF seg(3) seg(4) t] by simp
qed

lemma agg_to_atar_range:
  assumes ne: "aggs \<noteq> []" and len: "length atars = length aggs" and ts: "sorted atars"
  shows "\<exists>y. agg_to_atar_2025 aggs atars v = Inr y \<and> atars ! 0 \<le> y \<and> y \<le> last atars"
proof -
  have ne': "atars \<noteq> []" using ne len by auto
  have first_last: "atars ! 0 \<le> last atars"
    using ts ne' by (simp add: last_conv_nth sorted_nth_mono)
  consider (low) "v \<le> aggs ! 0" | (high) "aggs ! 0 < v" "last aggs \<le> v"
    | (mid) "aggs ! 0 < v" "v < last aggs"
    by linarith
  then show ?thesis
  proof cases
    case low
    then show ?thesis using ne first_last by (simp add: agg_to_atar_2025_def)
  next
    case high
    then show ?thesis using ne first_last by (simp add: agg_to_atar_2025_def)
  next
    case mid
    let ?i = "searchsorted aggs v"
    obtain y where y: "agg_to_atar_2025 aggs atars v = Inr y"
      "atars ! (?i - 1) \<le> y" "y \<le> atars ! ?i"
      using agg_to_atar_mid_bounds [OF ne mid len ts] by blast
    have seg: "?i < length aggs"
      using searchsorted_segment [OF ne mid] by simp
    have "atars ! 0 \<le> atars ! (?i - 1)"
      using ts seg len by (simp add: sorted_nth_mono)
    moreover have "atars ! ?i \<le> last atars"
      using ts seg len ne' by (simp add: last_conv_nth sorted_nth_mono)
    ultimately show ?thesis using y by auto
  qed
qed

lemma agg_to_atar_mono:
  assumes ne: "aggs \<noteq> []" and len: "length atars = length aggs" and ts: "sorted atars"
    and ab: "a \<le> b"
    and ya: "agg_to_atar_2025 aggs atars a = Inr ya"
    and yb: "agg_to_atar_2025 aggs atars b = Inr yb"
  shows "ya \<le> yb"
proof -
  have ra: "atars ! 0 \<le> ya" "ya \<le> last atars"
    using agg_to_atar_range [OF ne len ts, of a] ya by auto
  have rb: "atars ! 0 \<le> yb" "yb \<le> last atars"
    using agg_to_atar_range [OF ne len ts, of b] yb by auto
  consider (low) "a \<le> aggs ! 0" | (high) "last aggs \<le> b" "aggs ! 0 < b"
    | (mid) "aggs ! 0 < a" "b < last aggs"
    using ab by linarith
  then show ?thesis
  proof cases
    case low
    then have "ya = atars ! 0" using ya ne by (simp add: agg_to_atar_2025_def)
    then show ?thesis using rb by simp
  next
    case high
    then have "yb = last atars" using yb ne by (simp add: agg_to_atar_2025_def)
    then show ?thesis using ra by simp
  next
    case mid
    have ma: "aggs ! 0 < a" "a < last aggs" using mid ab by simp_all
    have mb: "aggs ! 0 < b" "b < last aggs" using mid ab by simp_all
    let ?i = "searchsorted aggs a" and ?j = "searchsorted aggs b"
    have ij: "?i \<le> ?j" by (rule searchsorted_mono [OF ab])
    have sa: "0 < ?i" "?i < length aggs" "aggs ! (?i - 1) < a" "a \<le> aggs ! ?i"
      using searchsorted_segment [OF ne ma] by simp_all
    have sb: "0 < ?j" "?j < length aggs" "aggs ! (?j - 1) < b" "b \<le> aggs ! ?j"
      using searchsorted_segment [OF ne mb] by simp_all
    have ba: "atars ! (?i - 1) \<le> ya" "ya \<le> atars ! ?i"
      using agg_to_atar_mid_bounds [OF ne ma len ts] ya by auto
    have bb: "atars ! (?j - 1) \<le> yb" "yb \<le> atars ! ?j"
      using agg_to_atar_mid_bounds [OF ne mb len ts] yb by auto
    show ?thesis
    proof (cases "?i = ?j")
      case True
      have t: "0 \<le> atars ! ?i - atars ! (?i - 1)"
        using ts sa(2) len by (simp add: sorted_nth_mono)
      have d: "0 < aggs ! ?i - aggs ! (?i - 1)" using sa(3,4) by linarith
      have "(a - aggs ! (?i - 1)) / (aggs ! ?i - aggs ! (?i - 1))
          \<le> (b - aggs ! (?i - 1)) / (aggs ! ?i - aggs ! (?i - 1))"
        using ab d by (simp add: divide_right_mono)
      then have "(a - aggs ! (?i - 1)) / (aggs ! ?i - aggs ! (?i - 1))
            * (atars ! ?i - atars ! (?i - 1))
          \<le> (b - aggs ! (?i - 1)) / (aggs ! ?i - aggs ! (?i - 1))
            * (atars ! ?i - atars ! (?i - 1))"
        using t by (rule mult_right_mono)
      then show ?thesis
        using ya yb True unfolding agg_to_atar_mid [OF ne ma] agg_to_atar_mid [OF ne mb]
        by simp
    next
      case False
      then have "?i \<le> ?j - 1" using ij by linarith
      then have "atars ! ?i \<le> atars ! (?j - 1)"
        using ts sb(2) len by (simp add: sorted_nth_mono)
      then show ?thesis using ba(2) bb(1) by linarith
    qed
  qed
qed

lemma final_results_eq:
  "final_results L B =
     fix_rounding_ties (build_results L B
        (fst (cumulative_loop B (sorted_bands_of B) 0 [])) (sorted_bands_of B))"
  by (simp add: final_results_def Let_def)

lemma fix_ties_atars: "map row_atar (fix_rounding_ties rs) = map row_atar rs"
  using fix_from_other_fields [of "hd rs" "tl rs"]
  by (cases rs) (simp_all add: fix_rounding_ties_def)

lemma final_results_atars: "map row_atar (final_results L B) = sorted_bands_of B"
  by (simp add: final_results_eq fix_ties_atars build_results_def comp_def)

lemma final_results_length: "length (final_results L B) = length B"
  using arg_cong [OF final_results_atars [of L B], of length]
  by (simp add: sorted_bands_of_def)

lemma final_rev_aggs:
  "rev_aggs (final_results L B) = rev (map row_agg (final_results L B))"
  by (simp add: rev_aggs_def final_results_eq results_by_agg_fix rev_map)

lemma final_rev_atars:
  "rev_atars (final_results L B) = sort (map fst B)"
proof -
  have "rev_atars (final_results L B) = rev (map row_atar (final_results L B))"
    by (simp add: rev_atars_def final_results_eq results_by_agg_fix rev_map)
  then show ?thesis
    by (simp add: final_results_atars sorted_bands_of_def)
qed

lemma final_rev_aggs_strict: "sorted_wrt (<) (rev_aggs (final_results L B))"
  unfolding final_results_eq by (rule rev_aggs_strict)

lemma final_rev_lengths:
  "length (rev_aggs (final_results L B)) = length B"
  "length (rev_atars (final_results L B)) = length B"
  by (simp_all add: final_rev_aggs final_rev_atars final_results_length)

subsection \<open>A table of three bands\<close>

definition example_agg_lookup :: "(real \<times> real) list" where
  "example_agg_lookup =
     [(9995/100, 480004/1000), (999/10, 480001/1000), (9985/100, 4795/10)]"

definition example_band_students :: "(real \<times> int) list" where
  "example_band_students = [(9995/100, 37), (999/10, 37), (9985/100, 38)]"

lemma example_final_results:
  "final_results example_agg_lookup example_band_students =
     [\<lparr>row_atar = 9995/100, row_agg = 480, row_students = 37,
        row_cumulative = 37, row_cum_pct = 12/100\<rparr>,
      \<lparr>row_atar = 999/10, row_agg = 47999/100, row_students = 37,
        row_cumulative = 74, row_cum_pct = 25/100\<rparr>,
      \<lparr>row_atar = 9985/100, row_agg = 4795/10, row_students = 38,
        row_cumulative = 112, row_cum_pct = 37/100\<rparr>]"
  by (simp add: final_results_def sorted_bands_of_def build_results_def
      fix_rounding_ties_def dict_get_def round2_def round_half_even_def Let_def
      example_agg_lookup_def example_band_students_def TOTAL_STUDENTS_def)

text \<open>
  Claim C7. Back-test idempotence: looking up, in the inverse of the final table, the
  aggregate of any row of that same table returns the row's own band; the shift of the
  back-test of the table against itself is 0 at every band. (In binary floating point the
  same holds: the interpolation fraction is \<open>d / d = 1\<close>, the difference of two
  neighbouring bands is exact, and so is its sum with the lower band.)
\<close>

theorem backtest_own_table_shift_zero:
  "\<forall>r \<in> set (final_results agg_lookup band_students).
     agg_to_atar_2025 (rev_aggs (final_results agg_lookup band_students))
       (rev_atars (final_results agg_lookup band_students)) (row_agg r)
     = Inr (row_atar r)"
proof
  fix r
  let ?T = "final_results agg_lookup band_students"
  assume "r \<in> set ?T"
  then obtain i where i: "i < length ?T" "?T ! i = r"
    by (auto simp: in_set_conv_nth)
  define k where "k = length ?T - 1 - i"
  have k: "k < length (rev_aggs ?T)"
    using i(1) by (simp add: k_def final_rev_lengths final_results_length)
  have lens: "length (rev_atars ?T) = length (rev_aggs ?T)"
    by (simp add: final_rev_lengths)
  have ra: "rev_atars ?T = rev (map row_atar ?T)"
    by (simp add: rev_atars_def final_results_eq results_by_agg_fix rev_map)
  have "rev_aggs ?T ! k = row_agg r"
    using i by (simp add: final_rev_aggs k_def rev_nth)
  moreover have "rev_atars ?T ! k = row_atar r"
    using i by (simp add: ra k_def rev_nth)
  ultimately show "agg_to_atar_2025 (rev_aggs ?T) (rev_atars ?T) (row_agg r) = Inr (row_atar r)"
    using agg_to_atar_at_row [OF final_rev_aggs_strict lens k] by simp
qed

theorem backtest_own_table_shift_zero_witness:
  "agg_to_atar_2025
     (rev_aggs (final_results example_agg_lookup example_band_students))
     (rev_atars (final_results example_agg_lookup example_band_students))
     (47999/100) = Inr (999/10)"
proof -
  have "\<lparr>row_atar = 999/10, row_agg = 47999/100, row_students = 37,
        row_cumulative = 74, row_cum_pct = 25/100\<rparr>
      \<in> set (final_results example_agg_lookup example_band_students)"
    by (simp add: example_final_results)
  from bspec [OF backtest_own_table_shift_zero this] show ?thesis by simp
qed

text \<open>
  Claim C10. On the final table of a non-empty band distribution the inverse lookup
  always returns a value, which lies between the lowest and the highest band of the
  table; it is monotone non-decreasing in the aggregate; an aggregate at or below the
  lowest band's aggregate maps to the lowest band, and one at or above the highest band's
  aggregate maps to the highest band.
\<close>

theorem agg_to_atar_monotone_bounded:
  assumes "band_students \<noteq> []"
  shows
  "(\<forall>a. \<exists>y. agg_to_atar_2025 (rev_aggs (final_results agg_lookup band_students))
              (rev_atars (final_results agg_lookup band_students)) a = Inr y
           \<and> row_atar (last (final_results agg_lookup band_students)) \<le> y
           \<and> y \<le> row_atar (hd (final_results agg_lookup band_students)))
   \<and> (\<forall>a b ya yb. a \<le> b
         \<longrightarrow> agg_to_atar_2025 (rev_aggs (final_results agg_lookup band_students))
              (rev_atars (final_results agg_lookup band_students)) a = Inr ya
         \<longrightarrow> agg_to_atar_2025 (rev_aggs (final_results agg_lookup band_students))
              (rev_atars (final_results agg_lookup band_students)) b = Inr yb
         \<longrightarrow> ya \<le> yb)
   \<and> (\<forall>a. a \<le> row_agg (last (final_results agg_lookup band_students))
         \<longrightarrow> agg_to_atar_2025 (rev_aggs (final_results agg_lookup band_students))
              (rev_atars (final_results agg_lookup band_students)) a
             = Inr (row_atar (last (final_results agg_lookup band_students))))
   \<and> (\<forall>a. row_agg (hd (final_results agg_lookup band_students)) \<le> a
         \<longrightarrow> agg_to_atar_2025 (rev_aggs (final_results agg_lookup band_students))
              (rev_atars (final_results agg_lookup band_students)) a
             = Inr (row_atar (hd (final_results agg_lookup band_students))))"
proof -
  let ?T = "final_results agg_lookup band_students"
  let ?as = "rev_aggs ?T" and ?ts = "rev_atars ?T"
  have Tne: "?T \<noteq> []"
    using assms final_results_length [of agg_lookup band_students] by auto
  have ne: "?as \<noteq> []"
    using assms final_rev_lengths(1) [of agg_lookup band_students] by auto
  have tne: "?ts \<noteq> []"
    using assms final_rev_lengths(2) [of agg_lookup band_students] by auto
  have len: "length ?ts = length ?as" by (simp add: final_rev_lengths)
  have ts: "sorted ?ts" by (simp add: final_rev_atars)
  have ra: "?ts = rev (map row_atar ?T)"
    by (simp add: rev_atars_def final_results_eq results_by_agg_fix rev_map)
  have t0: "?ts ! 0 = row_atar (last ?T)"
    using Tne by (simp add: ra rev_nth last_conv_nth)
  have tl: "last ?ts = row_atar (hd ?T)"
    using Tne by (simp add: ra last_rev hd_map)
  have a0: "?as ! 0 = row_agg (last ?T)"
    using Tne by (simp add: final_rev_aggs rev_nth last_conv_nth)
  have al: "last ?as = row_agg (hd ?T)"
    using Tne by (simp add: final_rev_aggs last_rev hd_map)
  have strict: "sorted_wrt (<) ?as" by (rule final_rev_aggs_strict)
  have first_le_last: "?as ! 0 \<le> last ?as"
    using sorted_wrt_nth_less [OF strict, of 0 "length ?as - 1"] ne
    by (cases "length ?as - 1 = 0") (simp_all add: last_conv_nth)
  have one: "\<exists>y. agg_to_atar_2025 ?as ?ts a = Inr y
           \<and> row_atar (last ?T) \<le> y \<and> y \<le> row_atar (hd ?T)" for a
    using agg_to_atar_range [OF ne len ts, of a] by (simp add: t0 tl)
  have two: "ya \<le> yb" if "a \<le> b" "agg_to_atar_2025 ?as ?ts a = Inr ya"
      "agg_to_atar_2025 ?as ?ts b = Inr yb" for a b ya yb
    using agg_to_atar_mono [OF ne len ts that] .
  have three: "agg_to_atar_2025 ?as ?ts a = Inr (row_atar (last ?T))"
    if "a \<le> row_agg (last ?T)" for a
  proof -
    have "a \<le> ?as ! 0" using that by (simp only: a0)
    then have "agg_to_atar_2025 ?as ?ts a = Inr (?ts ! 0)"
      using ne by (simp add: agg_to_atar_2025_def)
    then show ?thesis by (simp only: t0)
  qed
  have four: "agg_to_atar_2025 ?as ?ts a = Inr (row_atar (hd ?T))"
    if h: "row_agg (hd ?T) \<le> a" for a
  proof (cases "a \<le> ?as ! 0")
    case True
    then have eq: "?as ! 0 = last ?as" using h first_le_last al by linarith
    have lc: "last ?as = ?as ! (length ?as - 1)"
      using ne by (rule last_conv_nth)
    have "\<not> 0 < length ?as - 1"
    proof
      assume pos: "0 < length ?as - 1"
      have "?as ! 0 < ?as ! (length ?as - 1)"
        by (rule sorted_wrt_nth_less [OF strict pos]) (use ne in simp)
      then show False using eq lc by linarith
    qed
    then have "length ?ts - 1 = 0" using len by simp
    then have "?ts ! 0 = last ?ts"
      using last_conv_nth [OF tne] by simp
    moreover have "agg_to_atar_2025 ?as ?ts a = Inr (?ts ! 0)"
      using True ne by (simp add: agg_to_atar_2025_def)
    ultimately show ?thesis by (simp only: tl)
  next
    case False
    have "last ?as \<le> a" using h by (simp only: al)
    then have "agg_to_atar_2025 ?as ?ts a = Inr (last ?ts)"
      using False ne by (simp add: agg_to_atar_2025_def)
    then show ?thesis by (simp only: tl)
  qed
  show ?thesis using one two three four by blast
qed

theorem agg_to_atar_monotone_bounded_witness:
  "agg_to_atar_2025
     (rev_aggs (final_results example_agg_lookup example_band_students))
     (rev_atars (final_results example_agg_lookup example_band_students)) 0
     = Inr (9985/100)
   \<and> agg_to_atar_2025
     (rev_aggs (final_results example_agg_lookup example_band_students))
     (rev_atars (final_results example_agg_lookup example_band_students)) 500
     = Inr (9995/100)"
proof -
  have ne: "example_band_students \<noteq> []"
    by (simp add: example_band_students_def)
  have lo: "(0::real) \<le> row_agg (last (final_results example_agg_lookup example_band_students))"
    and hi: "row_agg (hd (final_results example_agg_lookup example_band_students)) \<le> (500::real)"
    by (simp_all add: example_final_results)
  show ?thesis
    using agg_to_atar_monotone_bounded [OF ne, of example_agg_lookup] lo hi
    by (simp add: example_final_results)
qed

section \<open>The blended curve (build\_lookup\_final.py, after the blend)\<close>

text \<open>
  \<^verbatim>\<open>
  for i in range(1, len(blended)):
      if blended[i] <= blended[i - 1]:
          blended[i] = blended[i - 1] + 0.01
  \<close>
  The array is written in place, so the predecessor is read after its own bump.
\<close>

fun enforce_from :: "real \<Rightarrow> real list \<Rightarrow> real list" where
  "enforce_from prev [] = []"
| "enforce_from prev (v # vs) =
     (let v' = (if v \<le> prev then prev + 1/100 else v) in v' # enforce_from v' vs)"

definition enforce_monotone :: "real list \<Rightarrow> real list" where
  "enforce_monotone blended =
     (case blended of [] \<Rightarrow> [] | v # vs \<Rightarrow> v # enforce_from v vs)"

text \<open>
  \<^verbatim>\<open>
  blended = np.minimum(blended, 500.0)
  blended = np.maximum(blended, 0.0)
  \<close>
\<close>

definition clamp_aggregate :: "real list \<Rightarrow> real list" where
  "clamp_aggregate blended = map (\<lambda>v. max (min v 500) 0) blended"

definition blended_final :: "real list \<Rightarrow> real list" where
  "blended_final blended = clamp_aggregate (enforce_monotone blended)"



lemma enforce_from_strict:
  "sorted_wrt (<) (prev # enforce_from prev vs)"
proof (induction vs arbitrary: prev)
  case Nil
  then show ?case by simp
next
  case (Cons v vs)
  define v' where "v' = (if v \<le> prev then prev + 1/100 else v)"
  have lt: "prev < v'" by (simp add: v'_def)
  have tail: "sorted_wrt (<) (v' # enforce_from v' vs)" by (rule Cons.IH)
  then have "\<forall>x \<in> set (enforce_from v' vs). v' < x" by simp
  then have "\<forall>x \<in> set (enforce_from v' vs). prev < x" using lt by fastforce
  then show ?case using lt tail by (simp add: Let_def v'_def)
qed

lemma enforce_monotone_strict: "sorted_wrt (<) (enforce_monotone blended)"
proof (cases blended)
  case Nil
  then show ?thesis by (simp add: enforce_monotone_def)
next
  case (Cons v vs)
  have "sorted_wrt (<) (v # enforce_from v vs)" by (rule enforce_from_strict)
  then show ?thesis using Cons by (simp only: enforce_monotone_def list.case)
qed

lemma clamp_aggregate_sorted:
  "sorted_wrt (<) vs \<Longrightarrow> sorted (clamp_aggregate vs)"
  unfolding clamp_aggregate_def
  by (induction vs) (auto simp: min_def max_def)

lemma blended_final_sorted: "sorted (blended_final blended)"
  unfolding blended_final_def
  by (rule clamp_aggregate_sorted) (rule enforce_monotone_strict)

lemma blended_final_in_range:
  "\<forall>v \<in> set (enforce_monotone blended). 0 \<le> v \<and> v \<le> 500 \<Longrightarrow>
   sorted_wrt (<) (blended_final blended)"
proof -
  assume "\<forall>v \<in> set (enforce_monotone blended). 0 \<le> v \<and> v \<le> 500"
  then have "map (\<lambda>v. max (min v 500) 0) (enforce_monotone blended)
      = map (\<lambda>v. v) (enforce_monotone blended)"
    by (intro map_cong) auto
  then show ?thesis
    by (simp add: blended_final_def clamp_aggregate_def enforce_monotone_strict)
qed


section \<open>The simulated aggregate curve (build\_lookup\_final.py)\<close>

text \<open>
  A subject of \<^verbatim>\<open>sim_subjects\<close> is the dict read from a row of the course-scales file
  whose \<^verbatim>\<open>X4\<close> is not 0: its name, the five coefficients of its quartic, and
  \<^verbatim>\<open>min_x\<close>, \<^verbatim>\<open>max_x\<close>, \<^verbatim>\<open>max_y\<close>.
\<close>

record sim_subject =
  sim_name :: string
  sim_X4 :: real
  sim_X3 :: real
  sim_X2 :: real
  sim_X1 :: real
  sim_X0 :: real
  sim_min_x :: real
  sim_max_x :: real
  sim_max_y :: real

text \<open>
  \<^verbatim>\<open>
  def eval_scaling_poly(subj, raw_pct):
      if raw_pct < subj['min_x']:
          return 0.0
      r = raw_pct
      scaled = subj['X4']*r**4 + subj['X3']*r**3 + subj['X2']*r**2 + subj['X1']*r + subj['X0']
      return max(0.0, min(scaled, subj['max_y']))
  \<close>
\<close>

definition eval_scaling_poly :: "sim_subject \<Rightarrow> real \<Rightarrow> real" where
  "eval_scaling_poly subj raw_pct =
     (if raw_pct < sim_min_x subj then 0
      else
        (let r = raw_pct;
             scaled = sim_X4 subj * r ^ 4 + sim_X3 subj * r ^ 3 + sim_X2 subj * r ^ 2
                      + sim_X1 subj * r + sim_X0 subj
         in max 0 (min scaled (sim_max_y subj))))"

text \<open>
  \<^verbatim>\<open>
  def simulate_aggregate_curve(subjects):
      results = []
      for i in range(201):  # 0.0, 0.5, 1.0, ..., 100.0
          raw_pct = i * 0.5
          scaled_scores = []
          for subj in subjects:
              if raw_pct >= subj['min_x']:
                  sc = eval_scaling_poly(subj, raw_pct)
                  scaled_scores.append(sc)
          scaled_scores.sort(reverse=True)
          aggregate = sum(scaled_scores[:5])
          results.append((raw_pct, aggregate))
      return results
  \<close>
\<close>

definition simulate_aggregate_curve :: "sim_subject list \<Rightarrow> (real \<times> real) list" where
  "simulate_aggregate_curve subjects =
     map (\<lambda>i.
        (let raw_pct = real i * (1/2);
             scaled_scores =
               map (\<lambda>subj. eval_scaling_poly subj raw_pct)
                 (filter (\<lambda>subj. raw_pct \<ge> sim_min_x subj) subjects);
             aggregate = sum_list (take 5 (rev (sort scaled_scores)))
         in (raw_pct, aggregate)))
       [0..<201]"

text \<open>
  The specification's reading, to compare with: every subject contributes at every raw
  score, 0 below its \<open>Min.x\<close> and otherwise its quartic clamped into \<open>[0, Max.y]\<close>, and
  the simulated aggregate is the sum of the 5 largest contributions.
\<close>

definition contribution :: "sim_subject \<Rightarrow> real \<Rightarrow> real" where
  "contribution subj raw =
     (if raw < sim_min_x subj then 0
      else max 0 (min (sim_X4 subj * raw ^ 4 + sim_X3 subj * raw ^ 3 + sim_X2 subj * raw ^ 2
                        + sim_X1 subj * raw + sim_X0 subj)
                   (sim_max_y subj)))"

definition top5_sum :: "real list \<Rightarrow> real" where
  "top5_sum vs = sum_list (take 5 (rev (sort vs)))"

definition spec_simulated_aggregate :: "sim_subject list \<Rightarrow> real \<Rightarrow> real" where
  "spec_simulated_aggregate subjects raw =
     top5_sum (map (\<lambda>subj. contribution subj raw) subjects)"

lemma sort_with_zeros:
  fixes f :: "'a \<Rightarrow> real"
  assumes nonneg: "\<forall>x \<in> set xs. 0 \<le> f x" and zero: "\<forall>x \<in> set xs. \<not> P x \<longrightarrow> f x = 0"
  shows "sort (map f xs) =
     replicate (length (filter (\<lambda>x. \<not> P x) xs)) 0 @ sort (map f (filter P xs))"
proof (rule properties_for_sort)
  let ?m = "length (filter (\<lambda>x. \<not> P x) xs)"
  have z: "map f (filter (\<lambda>x. \<not> P x) xs) = replicate ?m 0"
    using zero by (induction xs) auto
  have "mset (map f xs) = mset (map f (filter P xs)) + mset (map f (filter (\<lambda>x. \<not> P x) xs))"
    by (induction xs) auto
  then show "mset (replicate ?m 0 @ sort (map f (filter P xs))) = mset (map f xs)"
    by (simp add: z)
  have "\<forall>y \<in> set (sort (map f (filter P xs))). 0 \<le> y"
    using nonneg by auto
  then show "sorted (replicate ?m 0 @ sort (map f (filter P xs)))"
    by (auto simp: sorted_append)
qed

lemma sum_list_zeros: "sum_list (replicate n (0::real)) = 0"
  by (induction n) simp_all

lemma sum_take_append_zeros:
  "sum_list (take k (ys @ replicate m (0::real))) = sum_list (take k ys)"
  by (simp add: take_replicate sum_list_zeros)

lemma top5_sum_drop_zeros:
  fixes f :: "'a \<Rightarrow> real"
  assumes "\<forall>x \<in> set xs. 0 \<le> f x" and "\<forall>x \<in> set xs. \<not> P x \<longrightarrow> f x = 0"
  shows "top5_sum (map f (filter P xs)) = top5_sum (map f xs)"
  unfolding top5_sum_def sort_with_zeros [OF assms] rev_append rev_replicate
  by (simp only: sum_take_append_zeros)

lemma eval_scaling_poly_nonneg: "0 \<le> eval_scaling_poly subj raw"
  by (simp add: eval_scaling_poly_def Let_def)

lemma eval_scaling_poly_contribution: "eval_scaling_poly subj raw = contribution subj raw"
  by (simp add: eval_scaling_poly_def contribution_def Let_def)

text \<open>
  Claim C8. At each of the 201 raw scores 0.0, 0.5, ..., 100.0 the simulated aggregate is
  the sum of the 5 largest contributions over all the subjects, a subject contributing 0
  below its \<open>Min.x\<close> and otherwise its quartic clamped into \<open>[0, Max.y]\<close>. The script
  leaves the subjects below their \<open>Min.x\<close> out of the list instead of adding their zeros;
  no contribution is negative, so the 5 largest sum to the same.
\<close>

theorem simulated_aggregate_is_top5_of_all:
  "simulate_aggregate_curve subjects =
     map (\<lambda>i. (real i / 2, spec_simulated_aggregate subjects (real i / 2))) [0..<201]"
proof -
  have "sum_list (take 5 (rev (sort (map (\<lambda>subj. eval_scaling_poly subj raw)
            (filter (\<lambda>subj. raw \<ge> sim_min_x subj) subjects)))))
      = spec_simulated_aggregate subjects raw" for raw
  proof -
    have "top5_sum (map (\<lambda>subj. eval_scaling_poly subj raw)
            (filter (\<lambda>subj. raw \<ge> sim_min_x subj) subjects))
        = top5_sum (map (\<lambda>subj. eval_scaling_poly subj raw) subjects)"
      by (rule top5_sum_drop_zeros)
        (simp_all add: eval_scaling_poly_nonneg, simp add: eval_scaling_poly_def)
    then show ?thesis
      by (simp add: top5_sum_def spec_simulated_aggregate_def eval_scaling_poly_contribution)
  qed
  then show ?thesis
    by (simp add: simulate_aggregate_curve_def Let_def)
qed

section \<open>Subject curves (qld\_course\_scales\_app.py)\<close>

text \<open>
  The least-squares fits come from numpy, which is not part of the repository:
  \<^verbatim>\<open>fit_poly_4\<close> and \<^verbatim>\<open>fit_poly_3\<close> (wrappers of \<^verbatim>\<open>Polynomial.fit(...).convert().coef\<close>,
  returning the coefficients from the highest degree down) and \<^verbatim>\<open>np.polyfit(xs, ys, 2)\<close>
  are parameters of the functions below, total functions from the two lists of
  coordinates to the coefficients. The table \<^verbatim>\<open>SUBJECT_IDS\<close> is a parameter too; nothing
  below depends on its entries.
\<close>

type_synonym coeffs4 = "real \<times> real \<times> real \<times> real \<times> real"
type_synonym coeffs3 = "real \<times> real \<times> real \<times> real"
type_synonym coeffs2 = "real \<times> real \<times> real"

record SubjectData =
  name :: string
  code :: string
  subject_type :: string
  subject_id :: int
  min_x :: real
  pzx :: real
  p25x :: real
  p50x :: real
  p75x :: real
  p90x :: real
  p99x :: real
  max_x :: real
  min_y :: real
  pzy :: real
  p25y :: real
  p50y :: real
  p75y :: real
  p90y :: real
  p99y :: real
  max_y :: real
  X4 :: real
  X3 :: real
  X2 :: real
  X1 :: real
  X0 :: real
  Z3 :: real
  Z2 :: real
  Z1 :: real
  Z0 :: real
  max_fit_error :: real
  committed :: bool

text \<open>\<^verbatim>\<open>SubjectData.__init__(self, name, code, subject_type)\<close>\<close>

definition SubjectData_init ::
  "(string \<times> int) list \<Rightarrow> string \<Rightarrow> string \<Rightarrow> string \<Rightarrow> SubjectData" where
  "SubjectData_init SUBJECT_IDS nm cd ty =
     \<lparr> name = nm, code = cd, subject_type = ty,
       subject_id = dict_get SUBJECT_IDS nm 0,
       min_x = 10,
       pzx = 0, p25x = 0, p50x = 0, p75x = 0, p90x = 0, p99x = 0, max_x = 0,
       min_y = 0, pzy = 0, p25y = 0, p50y = 0, p75y = 0, p90y = 0, p99y = 0, max_y = 0,
       X4 = 0, X3 = 0, X2 = 0, X1 = 0, X0 = 0,
       Z3 = 0, Z2 = 0, Z1 = 0, Z0 = 0,
       max_fit_error = 0, committed = False \<rparr>"

text \<open>
  The quartic \<^verbatim>\<open>X4*x**4 + X3*x**3 + X2*x**2 + X1*x + X0\<close>, its derivative
  \<^verbatim>\<open>4*X4*x**3 + 3*X3*x**2 + 2*X2*x + X1\<close>, and the loop both functions below run over
  the anchors:
  \<^verbatim>\<open>
  err = 0
  for x, y in zip(x_all, y_all):
      yc = X4*x**4 + X3*x**3 + X2*x**2 + X1*x + X0
      err = max(err, abs(yc - y))
  \<close>
\<close>

definition quartic :: "coeffs4 \<Rightarrow> real \<Rightarrow> real" where
  "quartic c x = (case c of (c4, c3, c2, c1, c0) \<Rightarrow>
     c4 * x ^ 4 + c3 * x ^ 3 + c2 * x ^ 2 + c1 * x + c0)"

definition quartic_deriv :: "coeffs4 \<Rightarrow> real \<Rightarrow> real" where
  "quartic_deriv c x = (case c of (c4, c3, c2, c1, c0) \<Rightarrow>
     4 * c4 * x ^ 3 + 3 * c3 * x ^ 2 + 2 * c2 * x + c1)"

definition max_residual :: "coeffs4 \<Rightarrow> real list \<Rightarrow> real list \<Rightarrow> real" where
  "max_residual c x_all y_all =
     fold (\<lambda>(x, y) err. max err \<bar>quartic c x - y\<bar>) (zip x_all y_all) 0"

text \<open>
  \<^verbatim>\<open>
  def compute_polynomials(self):
      if self.subject_type != 'general' or self.p25x == 0:
          return
      x_all = [self.min_x, self.pzx, self.p25x, self.p50x,
               self.p75x, self.p90x, self.p99x, self.max_x]
      y_all = [self.min_y, self.pzy, self.p25y, self.p50y,
               self.p75y, self.p90y, self.p99y, self.max_y]
      self.X4, self.X3, self.X2, self.X1, self.X0 = fit_poly_4(x_all, y_all)
      x_lower = [self.min_x, self.pzx, self.p25x, self.p50x]
      y_lower = [self.min_y, self.pzy, self.p25y, self.p50y]
      self.Z3, self.Z2, self.Z1, self.Z0 = fit_poly_3(x_lower, y_lower)
      self.max_fit_error = 0
      for x, y in zip(x_all, y_all):
          y_calc = self.X4*x**4 + self.X3*x**3 + self.X2*x**2 + self.X1*x + self.X0
          self.max_fit_error = max(self.max_fit_error, abs(y_calc - y))
  \<close>
\<close>

definition compute_polynomials ::
  "(real list \<Rightarrow> real list \<Rightarrow> coeffs4) \<Rightarrow> (real list \<Rightarrow> real list \<Rightarrow> coeffs3)
     \<Rightarrow> SubjectData \<Rightarrow> SubjectData" where
  "compute_polynomials fit_poly_4 fit_poly_3 s =
     (if subject_type s \<noteq> ''general'' \<or> p25x s = 0 then s
      else
        (let x_all = [min_x s, pzx s, p25x s, p50x s, p75x s, p90x s, p99x s, max_x s];
             y_all = [min_y s, pzy s, p25y s, p50y s, p75y s, p90y s, p99y s, max_y s];
             c = fit_poly_4 x_all y_all;
             x_lower = [min_x s, pzx s, p25x s, p50x s];
             y_lower = [min_y s, pzy s, p25y s, p50y s];
             z = fit_poly_3 x_lower y_lower
         in (case c of (c4, c3, c2, c1, c0) \<Rightarrow> (case z of (z3, z2, z1, z0) \<Rightarrow>
              s\<lparr> X4 := c4, X3 := c3, X2 := c2, X1 := c1, X0 := c0,
                 Z3 := z3, Z2 := z2, Z1 := z1, Z0 := z0,
                 max_fit_error := max_residual c x_all y_all \<rparr>))))"

text \<open>
  \<^verbatim>\<open>min_gap = max(1, min(pdf_xs[i+1] - pdf_xs[i] for i in range(len(pdf_xs)-1)))\<close>
  over \<^verbatim>\<open>pdf_xs = [p25x, p50x, p75x, p90x, p99x]\<close>.
\<close>

definition min_gap_of :: "real list \<Rightarrow> real" where
  "min_gap_of pdf_xs =
     max 1 (min_list (map (\<lambda>i. pdf_xs ! (i + 1) - pdf_xs ! i) [0..<length pdf_xs - 1]))"

definition polyval2 :: "coeffs2 \<Rightarrow> real \<Rightarrow> real" where
  "polyval2 q x = (case q of (a, b, c) \<Rightarrow> a * x ^ 2 + b * x + c)"

text \<open>
  \<^verbatim>\<open>
  def build_general(code, name, p25x, p50x, p75x, p90x, p99x, p25y, p50y, p75y, p90y, p99y):
      s = SubjectData(name, code, 'general')
      s.min_x, s.min_y = 10, 0
      s.p25x, s.p50x, s.p75x, s.p90x, s.p99x = p25x, p50x, p75x, p90x, p99x
      s.p25y, s.p50y, s.p75y, s.p90y, s.p99y = p25y, p50y, p75y, p90y, p99y
      pdf_xs = [p25x, p50x, p75x, p90x, p99x]
      min_gap = max(1, min(pdf_xs[i+1] - pdf_xs[i] for i in range(len(pdf_xs)-1)))
      s.min_x = min(s.min_x, p25x - 2 * min_gap)
      s.min_x = max(0, s.min_x)
      s.pzx = (s.min_x + p25x) / 2
      s.max_x = 100.0
      if p99x > p90x:
          slope = (p99y - p90y) / (p99x - p90x)
          s.max_y = p99y + slope * (s.max_x - p99x)
      else:
          s.max_y = p99y + 0.5
      s.max_y = round(min(100.0, max(s.max_y, p99y + 0.5)), 2)
      quad_c = np.polyfit([s.min_x, p25x, p50x], [0, p25y, p50y], 2)
      s.pzy = float(np.polyval(quad_c, s.pzx))
      s.pzy = max(0, min(p25y * 0.95, s.pzy))
      s.compute_polynomials()
      return s
  \<close>
\<close>

definition build_general ::
  "(string \<times> int) list \<Rightarrow> (real list \<Rightarrow> real list \<Rightarrow> coeffs2)
     \<Rightarrow> (real list \<Rightarrow> real list \<Rightarrow> coeffs4) \<Rightarrow> (real list \<Rightarrow> real list \<Rightarrow> coeffs3)
     \<Rightarrow> string \<Rightarrow> string \<Rightarrow> real \<Rightarrow> real \<Rightarrow> real \<Rightarrow> real \<Rightarrow> real
     \<Rightarrow> real \<Rightarrow> real \<Rightarrow> real \<Rightarrow> real \<Rightarrow> real \<Rightarrow> SubjectData" where
  "build_general SUBJECT_IDS polyfit2 fit_poly_4 fit_poly_3
       cd nm q25x q50x q75x q90x q99x q25y q50y q75y q90y q99y =
     (let s0 = SubjectData_init SUBJECT_IDS nm cd ''general'';
          min_gap = min_gap_of [q25x, q50x, q75x, q90x, q99x];
          mn = max 0 (min 10 (q25x - 2 * min_gap));
          pz = (mn + q25x) / 2;
          mx = 100;
          my0 = (if q99x > q90x
                 then q99y + (q99y - q90y) / (q99x - q90x) * (mx - q99x)
                 else q99y + 1/2);
          my = round2 (min 100 (max my0 (q99y + 1/2)));
          quad_c = polyfit2 [mn, q25x, q50x] [0, q25y, q50y];
          pzy0 = polyval2 quad_c pz;
          pzy1 = max 0 (min (q25y * (95/100)) pzy0)
      in compute_polynomials fit_poly_4 fit_poly_3
           (s0\<lparr> min_x := mn, min_y := 0,
               p25x := q25x, p50x := q50x, p75x := q75x, p90x := q90x, p99x := q99x,
               p25y := q25y, p50y := q50y, p75y := q75y, p90y := q90y, p99y := q99y,
               pzx := pz, max_x := mx, max_y := my, pzy := pzy1 \<rparr>))"

section \<open>The boundary optimizer (auto\_optimize\_subject)\<close>

text \<open>
  \<^verbatim>\<open>
  def auto_optimize_subject(s):
      if s.subject_type != 'general' or s.p25x == 0:
          return False
      pdf_xs = [s.p25x, s.p50x, s.p75x, s.p90x, s.p99x]
      min_gap = max(1, min(pdf_xs[i+1] - pdf_xs[i] for i in range(len(pdf_xs)-1)))
      min_x_lo, min_x_hi = 0, s.p25x - 2 * min_gap
      if min_x_hi < min_x_lo:
          return False
      pzy_lo, pzy_hi = 0.1, s.p25y * 0.95
      if pzy_lo >= pzy_hi:
          return False
      best_err = float('inf')
      best = None
      n_mx, n_pzy = 40, 30
      for mi in range(n_mx + 1):
          mx = min_x_lo + (min_x_hi - min_x_lo) * mi / n_mx
          pzx = (mx + s.p25x) / 2  # midpoint
          for pyi in range(n_pzy + 1):
              pzy = pzy_lo + (pzy_hi - pzy_lo) * pyi / n_pzy
              x_all = [mx, pzx, s.p25x, s.p50x, s.p75x, s.p90x, s.p99x, s.max_x]
              y_all = [0, pzy, s.p25y, s.p50y, s.p75y, s.p90y, s.p99y, s.max_y]
              X4, X3, X2, X1, X0 = fit_poly_4(x_all, y_all)
              monotonic = True
              for t in range(51):
                  x = mx + (s.max_x - mx) * t / 50
                  deriv = 4*X4*x**3 + 3*X3*x**2 + 2*X2*x + X1
                  if deriv < -0.001:
                      monotonic = False
                      break
              if not monotonic:
                  continue
              err = 0
              for x, y in zip(x_all, y_all):
                  yc = X4*x**4 + X3*x**3 + X2*x**2 + X1*x + X0
                  err = max(err, abs(yc - y))
              if err < best_err:
                  best_err = err
                  best = (mx, pzx, pzy)
      if best is None:
          return False
      s.min_x, s.pzx, s.pzy = best
      s.min_y = 0
      s.compute_polynomials()
      return True
  \<close>
  The function returns the flag together with the record, which Python mutates in
  place. The body of the two nested loops is split into the candidate of a grid cell
  \<open>(mi, pyi)\<close>, its fitted coefficients, the sampled check of the derivative and the
  error over the 8 anchors. The pair \<^verbatim>\<open>best_err, best\<close> is \<open>None\<close> as long as
  \<^verbatim>\<open>best_err\<close> is infinite and \<^verbatim>\<open>best\<close> is \<^verbatim>\<open>None\<close> (every error is a finite number
  here, so the first cell that passes the check replaces them), and
  \<open>Some (best_err, best)\<close> afterwards.
\<close>

definition min_x_hi_of :: "SubjectData \<Rightarrow> real" where
  "min_x_hi_of s = p25x s - 2 * min_gap_of [p25x s, p50x s, p75x s, p90x s, p99x s]"

definition pzy_hi_of :: "SubjectData \<Rightarrow> real" where
  "pzy_hi_of s = p25y s * (95/100)"

definition candidate :: "SubjectData \<Rightarrow> nat \<times> nat \<Rightarrow> real \<times> real \<times> real" where
  "candidate s cell = (case cell of (mi, pyi) \<Rightarrow>
     (let mx = 0 + (min_x_hi_of s - 0) * real mi / 40;
          pzx' = (mx + p25x s) / 2;
          pzy' = 1/10 + (pzy_hi_of s - 1/10) * real pyi / 30
      in (mx, pzx', pzy')))"

definition candidate_x_all :: "SubjectData \<Rightarrow> nat \<times> nat \<Rightarrow> real list" where
  "candidate_x_all s cell = (case candidate s cell of (mx, pzx', pzy') \<Rightarrow>
     [mx, pzx', p25x s, p50x s, p75x s, p90x s, p99x s, max_x s])"

definition candidate_y_all :: "SubjectData \<Rightarrow> nat \<times> nat \<Rightarrow> real list" where
  "candidate_y_all s cell = (case candidate s cell of (mx, pzx', pzy') \<Rightarrow>
     [0, pzy', p25y s, p50y s, p75y s, p90y s, p99y s, max_y s])"

definition candidate_coeffs ::
  "(real list \<Rightarrow> real list \<Rightarrow> coeffs4) \<Rightarrow> SubjectData \<Rightarrow> nat \<times> nat \<Rightarrow> coeffs4" where
  "candidate_coeffs fit_poly_4 s cell =
     fit_poly_4 (candidate_x_all s cell) (candidate_y_all s cell)"

definition candidate_monotonic ::
  "(real list \<Rightarrow> real list \<Rightarrow> coeffs4) \<Rightarrow> SubjectData \<Rightarrow> nat \<times> nat \<Rightarrow> bool" where
  "candidate_monotonic fit_poly_4 s cell = (case candidate s cell of (mx, pzx', pzy') \<Rightarrow>
     list_all (\<lambda>t. \<not> quartic_deriv (candidate_coeffs fit_poly_4 s cell)
                        (mx + (max_x s - mx) * real t / 50) < - (1/1000))
       [0..<51])"

definition candidate_err ::
  "(real list \<Rightarrow> real list \<Rightarrow> coeffs4) \<Rightarrow> SubjectData \<Rightarrow> nat \<times> nat \<Rightarrow> real" where
  "candidate_err fit_poly_4 s cell =
     max_residual (candidate_coeffs fit_poly_4 s cell)
       (candidate_x_all s cell) (candidate_y_all s cell)"

definition grid_body ::
  "(real list \<Rightarrow> real list \<Rightarrow> coeffs4) \<Rightarrow> SubjectData \<Rightarrow> nat \<times> nat
     \<Rightarrow> (real \<times> real \<times> real \<times> real) option \<Rightarrow> (real \<times> real \<times> real \<times> real) option" where
  "grid_body fit_poly_4 s cell best =
     (if \<not> candidate_monotonic fit_poly_4 s cell then best
      else
        (let err = candidate_err fit_poly_4 s cell in
         case best of
           None \<Rightarrow> Some (err, candidate s cell)
         | Some (best_err, b) \<Rightarrow>
             if err < best_err then Some (err, candidate s cell) else best))"

definition grid_search ::
  "(real list \<Rightarrow> real list \<Rightarrow> coeffs4) \<Rightarrow> SubjectData
     \<Rightarrow> (real \<times> real \<times> real \<times> real) option" where
  "grid_search fit_poly_4 s =
     fold (\<lambda>mi best. fold (\<lambda>pyi best'. grid_body fit_poly_4 s (mi, pyi) best') [0..<31] best)
       [0..<41] None"

definition auto_optimize_subject ::
  "(real list \<Rightarrow> real list \<Rightarrow> coeffs4) \<Rightarrow> (real list \<Rightarrow> real list \<Rightarrow> coeffs3)
     \<Rightarrow> SubjectData \<Rightarrow> bool \<times> SubjectData" where
  "auto_optimize_subject fit_poly_4 fit_poly_3 s =
     (if subject_type s \<noteq> ''general'' \<or> p25x s = 0 then (False, s)
      else if min_x_hi_of s < 0 then (False, s)
      else if 1/10 \<ge> pzy_hi_of s then (False, s)
      else
        (case grid_search fit_poly_4 s of
           None \<Rightarrow> (False, s)
         | Some (best_err, mx, pzx', pzy') \<Rightarrow>
             (True, compute_polynomials fit_poly_4 fit_poly_3
                      (s\<lparr> min_x := mx, pzx := pzx', pzy := pzy', min_y := 0 \<rparr>))))"

text \<open>The cells in the order the two loops visit them: \<open>mi\<close> outside, \<open>pyi\<close> inside.\<close>

definition grid_cells :: "(nat \<times> nat) list" where
  "grid_cells = List.product [0..<41] [0..<31]"

subsection \<open>The score of a cell in the words of the specification\<close>

text \<open>
  Written from the specification, to be compared with the loop bodies above: the 8
  anchors of a candidate \<open>(Min.x, LowerBoundary.x, LowerBoundary.y)\<close>, the absolute
  residual of a quartic at an anchor, the quartic fitted to the anchors of a candidate,
  the score of a candidate (the maximum absolute residual over its 8 anchors), and the
  validity of a candidate (the derivative of the fitted quartic is at least \<open>-0.001\<close>
  at each of the 51 equally spaced points \<open>Min.x + (Max.x - Min.x) * t / 50\<close>,
  \<open>t = 0, ..., 50\<close>).
\<close>

definition spec_anchors :: "SubjectData \<Rightarrow> real \<times> real \<times> real \<Rightarrow> (real \<times> real) list" where
  "spec_anchors s cand = (case cand of (mx, lbx, lby) \<Rightarrow>
     [(mx, 0), (lbx, lby), (p25x s, p25y s), (p50x s, p50y s), (p75x s, p75y s),
      (p90x s, p90y s), (p99x s, p99y s), (max_x s, max_y s)])"

definition spec_abs_residual :: "coeffs4 \<Rightarrow> real \<times> real \<Rightarrow> real" where
  "spec_abs_residual c p = (case c of (c4, c3, c2, c1, c0) \<Rightarrow> (case p of (x, y) \<Rightarrow>
     \<bar>c4 * x ^ 4 + c3 * x ^ 3 + c2 * x ^ 2 + c1 * x + c0 - y\<bar>))"

definition spec_cell_fit ::
  "(real list \<Rightarrow> real list \<Rightarrow> coeffs4) \<Rightarrow> SubjectData \<Rightarrow> real \<times> real \<times> real \<Rightarrow> coeffs4" where
  "spec_cell_fit fit s cand = fit (map fst (spec_anchors s cand)) (map snd (spec_anchors s cand))"

definition spec_cell_error ::
  "(real list \<Rightarrow> real list \<Rightarrow> coeffs4) \<Rightarrow> SubjectData \<Rightarrow> real \<times> real \<times> real \<Rightarrow> real" where
  "spec_cell_error fit s cand =
     Max (set (map (spec_abs_residual (spec_cell_fit fit s cand)) (spec_anchors s cand)))"

definition spec_cell_valid ::
  "(real list \<Rightarrow> real list \<Rightarrow> coeffs4) \<Rightarrow> SubjectData \<Rightarrow> real \<times> real \<times> real \<Rightarrow> bool" where
  "spec_cell_valid fit s cand = (case cand of (mx, lbx, lby) \<Rightarrow>
     (case spec_cell_fit fit s cand of (c4, c3, c2, c1, c0) \<Rightarrow>
        \<forall>t \<in> set [0..<51].
          (let x = mx + (max_x s - mx) * real t / 50
           in 4 * c4 * x ^ 3 + 3 * c3 * x ^ 2 + 2 * c2 * x + c1 \<ge> - (1/1000))))"

section \<open>The grid scan keeps the first minimum\<close>

lemma fold_product:
  "fold (\<lambda>x b. fold (\<lambda>y b'. g (x, y) b') ys b) xs b0 = fold g (List.product xs ys) b0"
  by (induction xs arbitrary: b0) (simp_all add: fold_map comp_def)

lemma grid_search_cells: "grid_search fit s = fold (grid_body fit s) grid_cells None"
  unfolding grid_search_def grid_cells_def by (rule fold_product)

lemma grid_body_None:
  "grid_body fit s c best = None \<longleftrightarrow> best = None \<and> \<not> candidate_monotonic fit s c"
proof -
  obtain mx px py where c: "candidate s c = (mx, px, py)"
    by (cases "candidate s c")
  show ?thesis
  proof (cases best)
    case None
    then show ?thesis by (simp add: grid_body_def Let_def)
  next
    case (Some p)
    obtain e0 m0 x0 y0 where p: "p = (e0, m0, x0, y0)" by (cases p)
    show ?thesis using Some p c by (simp add: grid_body_def Let_def)
  qed
qed

lemma scan_None:
  "fold (grid_body fit s) cs None = None \<longleftrightarrow> (\<forall>c \<in> set cs. \<not> candidate_monotonic fit s c)"
proof (induction cs rule: rev_induct)
  case Nil
  then show ?case by simp
next
  case (snoc c cs)
  then show ?case
    by (auto simp: grid_body_None)
qed

lemma scan_Some:
  "fold (grid_body fit s) cs None = Some (e, b) \<Longrightarrow>
   \<exists>k < length cs. candidate_monotonic fit s (cs ! k) \<and> e = candidate_err fit s (cs ! k)
     \<and> b = candidate s (cs ! k)
     \<and> (\<forall>j < length cs. candidate_monotonic fit s (cs ! j) \<longrightarrow> e \<le> candidate_err fit s (cs ! j))
     \<and> (\<forall>j < k. candidate_monotonic fit s (cs ! j) \<longrightarrow> e < candidate_err fit s (cs ! j))"
proof (induction cs arbitrary: e b rule: rev_induct)
  case Nil
  then show ?case by simp
next
  case (snoc c cs)
  let ?prev = "fold (grid_body fit s) cs None"
  let ?n = "length cs"
  have step: "grid_body fit s c ?prev = Some (e, b)"
    using snoc.prems by simp
  show ?case
  proof (cases "candidate_monotonic fit s c")
    case False
    then have prev: "?prev = Some (e, b)" using step by (simp add: grid_body_def)
    obtain k where k: "k < ?n" "candidate_monotonic fit s (cs ! k)"
        "e = candidate_err fit s (cs ! k)" "b = candidate s (cs ! k)"
        "\<forall>j < ?n. candidate_monotonic fit s (cs ! j) \<longrightarrow> e \<le> candidate_err fit s (cs ! j)"
        "\<forall>j < k. candidate_monotonic fit s (cs ! j) \<longrightarrow> e < candidate_err fit s (cs ! j)"
      using snoc.IH [OF prev] by blast
    have all: "\<forall>j < length (cs @ [c]). candidate_monotonic fit s ((cs @ [c]) ! j)
         \<longrightarrow> e \<le> candidate_err fit s ((cs @ [c]) ! j)"
      using k(5) False by (auto simp: nth_append less_Suc_eq)
    have before: "\<forall>j < k. candidate_monotonic fit s ((cs @ [c]) ! j)
         \<longrightarrow> e < candidate_err fit s ((cs @ [c]) ! j)"
      using k(1,6) by (auto simp: nth_append)
    show ?thesis
      using k(1-4) all before
      by (intro exI [of _ k]) (simp add: nth_append)
  next
    case True
    show ?thesis
    proof (cases ?prev)
      case None
      then have eb: "e = candidate_err fit s c" "b = candidate s c"
        using step True by (simp_all add: grid_body_def Let_def)
      have none: "\<forall>c' \<in> set cs. \<not> candidate_monotonic fit s c'"
        using None by (simp add: scan_None)
      then have nj: "\<forall>j < ?n. \<not> candidate_monotonic fit s (cs ! j)"
        by simp
      have all: "\<forall>j < length (cs @ [c]). candidate_monotonic fit s ((cs @ [c]) ! j)
           \<longrightarrow> e \<le> candidate_err fit s ((cs @ [c]) ! j)"
        using nj eb by (auto simp: nth_append less_Suc_eq)
      have before: "\<forall>j < ?n. candidate_monotonic fit s ((cs @ [c]) ! j)
           \<longrightarrow> e < candidate_err fit s ((cs @ [c]) ! j)"
        using nj by (auto simp: nth_append)
      show ?thesis
        using True eb all before
        by (intro exI [of _ ?n]) simp
    next
      case (Some p)
      obtain e0 b0 where p: "p = (e0, b0)" by (cases p)
      have prev: "?prev = Some (e0, b0)" using Some p by simp
      obtain k where k: "k < ?n" "candidate_monotonic fit s (cs ! k)"
          "e0 = candidate_err fit s (cs ! k)" "b0 = candidate s (cs ! k)"
          "\<forall>j < ?n. candidate_monotonic fit s (cs ! j) \<longrightarrow> e0 \<le> candidate_err fit s (cs ! j)"
          "\<forall>j < k. candidate_monotonic fit s (cs ! j) \<longrightarrow> e0 < candidate_err fit s (cs ! j)"
        using snoc.IH [OF prev] by blast
      show ?thesis
      proof (cases "candidate_err fit s c < e0")
        case less: True
        then have eb: "e = candidate_err fit s c" "b = candidate s c"
          using step True prev by (simp_all add: grid_body_def Let_def)
        have all: "\<forall>j < length (cs @ [c]). candidate_monotonic fit s ((cs @ [c]) ! j)
             \<longrightarrow> e \<le> candidate_err fit s ((cs @ [c]) ! j)"
          using k(5) less eb by (force simp: nth_append less_Suc_eq)
        have before: "\<forall>j < ?n. candidate_monotonic fit s ((cs @ [c]) ! j)
             \<longrightarrow> e < candidate_err fit s ((cs @ [c]) ! j)"
          using k(5) less eb by (force simp: nth_append)
        show ?thesis
          using True eb all before
          by (intro exI [of _ ?n]) simp
      next
        case geq: False
        then have eb: "e = e0" "b = b0"
          using step True prev by (simp_all add: grid_body_def Let_def)
        have all: "\<forall>j < length (cs @ [c]). candidate_monotonic fit s ((cs @ [c]) ! j)
             \<longrightarrow> e \<le> candidate_err fit s ((cs @ [c]) ! j)"
          using k(5) geq eb by (auto simp: nth_append less_Suc_eq)
        have before: "\<forall>j < k. candidate_monotonic fit s ((cs @ [c]) ! j)
             \<longrightarrow> e < candidate_err fit s ((cs @ [c]) ! j)"
          using k(1,6) eb by (auto simp: nth_append)
        show ?thesis
          using k(1-4) eb all before
          by (intro exI [of _ k]) (simp add: nth_append)
      qed
    qed
  qed
qed

lemma grid_cells_length: "length grid_cells = 41 * 31"
  by (simp add: grid_cells_def)

lemma grid_cells_nth: "k < 41 * 31 \<Longrightarrow> grid_cells ! k = (k div 31, k mod 31)"
  unfolding grid_cells_def
  by (subst product_nth) (simp_all add: less_mult_imp_div_less)

lemma auto_optimize_True_iff:
  "fst (auto_optimize_subject f4 f3 s) \<longleftrightarrow>
     subject_type s = ''general'' \<and> p25x s \<noteq> 0 \<and> \<not> min_x_hi_of s < 0
     \<and> \<not> pzy_hi_of s \<le> 1/10
     \<and> (\<exists>c \<in> set grid_cells. candidate_monotonic f4 s c)"
proof (cases "grid_search f4 s")
  case None
  then have "\<forall>c \<in> set grid_cells. \<not> candidate_monotonic f4 s c"
    by (simp add: grid_search_cells scan_None)
  then show ?thesis using None by (simp add: auto_optimize_subject_def)
next
  case (Some p)
  obtain e mx px py where p: "p = (e, mx, px, py)" by (cases p)
  have "\<not> (\<forall>c \<in> set grid_cells. \<not> candidate_monotonic f4 s c)"
    using Some scan_None [of f4 s grid_cells] by (simp add: grid_search_cells)
  then show ?thesis using Some p by (auto simp: auto_optimize_subject_def)
qed

lemma auto_optimize_False_same:
  "\<not> fst (auto_optimize_subject f4 f3 s) \<Longrightarrow> auto_optimize_subject f4 f3 s = (False, s)"
  by (auto simp: auto_optimize_subject_def split: if_splits option.splits)

lemma compute_polynomials_anchors:
  "min_x (compute_polynomials f4 f3 s) = min_x s"
  "pzx (compute_polynomials f4 f3 s) = pzx s"
  "pzy (compute_polynomials f4 f3 s) = pzy s"
  "min_y (compute_polynomials f4 f3 s) = min_y s"
  "p25x (compute_polynomials f4 f3 s) = p25x s"
  "p25y (compute_polynomials f4 f3 s) = p25y s"
  by (simp_all add: compute_polynomials_def Let_def split: prod.splits)

lemma auto_optimize_success:
  assumes "auto_optimize_subject f4 f3 s = (True, s')"
  shows "\<exists>k < length grid_cells.
      candidate_monotonic f4 s (grid_cells ! k)
    \<and> s' = compute_polynomials f4 f3
          (s\<lparr> min_x := fst (candidate s (grid_cells ! k)),
              pzx := fst (snd (candidate s (grid_cells ! k))),
              pzy := snd (snd (candidate s (grid_cells ! k))), min_y := 0 \<rparr>)
    \<and> (\<forall>j < length grid_cells. candidate_monotonic f4 s (grid_cells ! j) \<longrightarrow>
          candidate_err f4 s (grid_cells ! k) \<le> candidate_err f4 s (grid_cells ! j))
    \<and> (\<forall>j < k. candidate_monotonic f4 s (grid_cells ! j) \<longrightarrow>
          candidate_err f4 s (grid_cells ! k) < candidate_err f4 s (grid_cells ! j))"
proof -
  have guards: "subject_type s = ''general''" "p25x s \<noteq> 0" "\<not> min_x_hi_of s < 0"
      "\<not> pzy_hi_of s \<le> 1/10"
    using assms auto_optimize_True_iff [of f4 f3 s] by simp_all
  obtain p where gs: "grid_search f4 s = Some p"
    using assms guards by (cases "grid_search f4 s") (simp_all add: auto_optimize_subject_def)
  obtain e mx px py where p: "p = (e, mx, px, py)" by (cases p)
  have s': "s' = compute_polynomials f4 f3 (s\<lparr> min_x := mx, pzx := px, pzy := py, min_y := 0 \<rparr>)"
    using assms guards gs p by (simp add: auto_optimize_subject_def)
  have "fold (grid_body f4 s) grid_cells None = Some (e, (mx, px, py))"
    using gs p by (simp add: grid_search_cells)
  from scan_Some [OF this]
  obtain k where k: "k < length grid_cells" "candidate_monotonic f4 s (grid_cells ! k)"
      "e = candidate_err f4 s (grid_cells ! k)" "(mx, px, py) = candidate s (grid_cells ! k)"
      "\<forall>j < length grid_cells. candidate_monotonic f4 s (grid_cells ! j)
          \<longrightarrow> e \<le> candidate_err f4 s (grid_cells ! j)"
      "\<forall>j < k. candidate_monotonic f4 s (grid_cells ! j)
          \<longrightarrow> e < candidate_err f4 s (grid_cells ! j)"
    by blast
  have c: "fst (candidate s (grid_cells ! k)) = mx"
      "fst (snd (candidate s (grid_cells ! k))) = px"
      "snd (snd (candidate s (grid_cells ! k))) = py"
    using k(4) [symmetric] by simp_all
  show ?thesis
    using k(1,2,5,6) s' unfolding k(3) c [symmetric]
    by (intro exI [of _ k]) simp
qed

subsection \<open>The loop bodies compute the score and the validity of the specification\<close>

text \<open>
  The error loop, which starts from 0 and takes the maximum with each absolute residual
  in turn, returns the maximum absolute residual over the anchors; the sampled check of
  the derivative is the validity of the candidate.
\<close>

lemma fold_max_Max:
  "fold (\<lambda>(x, y) err. max err (g x y)) ps e = Max (insert e ((\<lambda>(x, y). g x y) ` set ps))"
proof (induction ps arbitrary: e)
  case Nil
  show ?case by simp
next
  case (Cons p ps)
  obtain x y where p: "p = (x, y)" by (cases p)
  have "fold (\<lambda>(x, y) err. max err (g x y)) (p # ps) e
      = Max (insert (max e (g x y)) ((\<lambda>(x, y). g x y) ` set ps))"
    using Cons [of "max e (g x y)"] p by simp
  also have "\<dots> = max (max e (g x y)) (Max (insert (g x y) ((\<lambda>(x, y). g x y) ` set ps)))"
    by (cases "ps = []") (simp_all add: max.assoc max.left_commute)
  also have "\<dots> = Max (insert e (insert (g x y) ((\<lambda>(x, y). g x y) ` set ps)))"
    by (simp add: max.assoc)
  finally show ?case using p by simp
qed

lemma max_residual_Max:
  assumes "zip xs ys \<noteq> []"
  shows "max_residual c xs ys = Max (set (map (spec_abs_residual c) (zip xs ys)))"
proof -
  let ?A = "spec_abs_residual c ` set (zip xs ys)"
  have r: "(\<lambda>(x, y). \<bar>quartic c x - y\<bar>) = spec_abs_residual c"
    by (auto simp: fun_eq_iff spec_abs_residual_def quartic_def split: prod.splits)
  have "max_residual c xs ys = Max (insert 0 ?A)"
    unfolding max_residual_def fold_max_Max r ..
  also have "\<dots> = max 0 (Max ?A)"
    using assms by simp
  also have "\<dots> = Max ?A"
  proof -
    obtain p where p: "p \<in> set (zip xs ys)" using assms by (cases "zip xs ys") auto
    have "0 \<le> spec_abs_residual c p"
      by (simp add: spec_abs_residual_def split: prod.splits)
    also have "\<dots> \<le> Max ?A" using p by simp
    finally show ?thesis by simp
  qed
  finally show ?thesis by simp
qed

lemma candidate_lists:
  "candidate_x_all s cell = map fst (spec_anchors s (candidate s cell))"
  "candidate_y_all s cell = map snd (spec_anchors s (candidate s cell))"
  by (simp_all add: candidate_x_all_def candidate_y_all_def spec_anchors_def split: prod.splits)

lemma candidate_coeffs_spec:
  "candidate_coeffs fit s cell = spec_cell_fit fit s (candidate s cell)"
  by (simp add: candidate_coeffs_def spec_cell_fit_def candidate_lists)

lemma candidate_err_spec:
  "candidate_err fit s cell = spec_cell_error fit s (candidate s cell)"
proof -
  have ne: "zip (candidate_x_all s cell) (candidate_y_all s cell) \<noteq> []"
    by (simp add: candidate_x_all_def candidate_y_all_def split: prod.splits)
  have z: "zip (candidate_x_all s cell) (candidate_y_all s cell)
      = spec_anchors s (candidate s cell)"
    unfolding candidate_lists by (rule zip_map_fst_snd)
  show ?thesis
    unfolding candidate_err_def max_residual_Max [OF ne] z spec_cell_error_def
      candidate_coeffs_spec ..
qed

lemma candidate_monotonic_spec:
  "candidate_monotonic fit s cell \<longleftrightarrow> spec_cell_valid fit s (candidate s cell)"
  by (auto simp: candidate_monotonic_def spec_cell_valid_def candidate_coeffs_spec
      quartic_deriv_def list_all_iff not_less Let_def split: prod.splits)

lemma spec_cell_error_ge:
  "p \<in> set (spec_anchors s cand)
    \<Longrightarrow> spec_abs_residual (spec_cell_fit fit s cand) p \<le> spec_cell_error fit s cand"
  by (simp add: spec_cell_error_def)

subsection \<open>A subject and four stand-ins for the fit\<close>

text \<open>
  The anchors of the subject English. The four functions stand in for numpy's fit where
  a concrete one is needed: one returns the zero polynomial, one a polynomial of slope
  \<open>-1\<close>, and \<open>level_fit4\<close> returns the constant polynomial at the height of the second
  anchor, \<open>LowerBoundary.y\<close>, so that the score differs from cell to cell.
\<close>

definition english :: SubjectData where
  "english =
     \<lparr> name = ''English'', code = ''0001'', subject_type = ''general'', subject_id = 31,
       min_x = 10, pzx = 355/10, p25x = 61, p50x = 72, p75x = 83, p90x = 91, p99x = 99,
       max_x = 100,
       min_y = 0, pzy = 9, p25y = 5267/100, p50y = 7012/100, p75y = 8318/100,
       p90y = 8948/100, p99y = 936/10, max_y = 941/10,
       X4 = 0, X3 = 0, X2 = 0, X1 = 0, X0 = 0, Z3 = 0, Z2 = 0, Z1 = 0, Z0 = 0,
       max_fit_error = 0, committed = False \<rparr>"

definition flat_fit4 :: "real list \<Rightarrow> real list \<Rightarrow> coeffs4" where
  "flat_fit4 xs ys = (0, 0, 0, 0, 0)"

definition falling_fit4 :: "real list \<Rightarrow> real list \<Rightarrow> coeffs4" where
  "falling_fit4 xs ys = (0, 0, 0, - 1, 0)"

definition flat_fit3 :: "real list \<Rightarrow> real list \<Rightarrow> coeffs3" where
  "flat_fit3 xs ys = (0, 0, 0, 0)"

definition level_fit4 :: "real list \<Rightarrow> real list \<Rightarrow> coeffs4" where
  "level_fit4 xs ys = (0, 0, 0, 0, hd (tl ys))"

lemma english_guards:
  "subject_type english = ''general''" "p25x english \<noteq> 0"
  "\<not> min_x_hi_of english < 0" "\<not> pzy_hi_of english \<le> 1/10"
  by (simp_all add: english_def min_x_hi_of_def pzy_hi_of_def min_gap_of_def)

lemma falling_never_monotonic: "\<not> candidate_monotonic falling_fit4 s c"
  by (auto simp: candidate_monotonic_def candidate_coeffs_def falling_fit4_def
      quartic_deriv_def list_all_iff split: prod.splits intro: exI [of _ 0])

lemma flat_always_monotonic: "candidate_monotonic flat_fit4 s c"
  by (simp add: candidate_monotonic_def candidate_coeffs_def flat_fit4_def
      quartic_deriv_def list_all_iff split: prod.splits)

text \<open>
  Claim C3. When the subject is not a general subject with data, or the search space is
  empty (\<open>P25.x - 2g < 0\<close>, or the range of \<open>LowerBoundary.y\<close> is empty), or no cell
  of the grid passes the sampled check of the derivative, \<open>auto_optimize_subject\<close>
  returns \<open>False\<close> and the record unchanged; whenever it returns \<open>False\<close> the record is
  unchanged. The function is total: no path raises (numpy's fit is taken to return).
\<close>

theorem auto_optimize_failure_leaves_record:
  "(subject_type s \<noteq> ''general'' \<or> p25x s = 0 \<or> min_x_hi_of s < 0 \<or> pzy_hi_of s \<le> 1/10
      \<or> (\<forall>c \<in> set grid_cells. \<not> candidate_monotonic fit_poly_4 s c)
     \<longrightarrow> auto_optimize_subject fit_poly_4 fit_poly_3 s = (False, s))
   \<and> (\<not> fst (auto_optimize_subject fit_poly_4 fit_poly_3 s)
     \<longrightarrow> snd (auto_optimize_subject fit_poly_4 fit_poly_3 s) = s)"
proof (intro conjI impI)
  assume "subject_type s \<noteq> ''general'' \<or> p25x s = 0 \<or> min_x_hi_of s < 0 \<or> pzy_hi_of s \<le> 1/10
      \<or> (\<forall>c \<in> set grid_cells. \<not> candidate_monotonic fit_poly_4 s c)"
  then have "\<not> fst (auto_optimize_subject fit_poly_4 fit_poly_3 s)"
    unfolding auto_optimize_True_iff by blast
  then show "auto_optimize_subject fit_poly_4 fit_poly_3 s = (False, s)"
    by (rule auto_optimize_False_same)
next
  assume "\<not> fst (auto_optimize_subject fit_poly_4 fit_poly_3 s)"
  then show "snd (auto_optimize_subject fit_poly_4 fit_poly_3 s) = s"
    by (simp add: auto_optimize_False_same)
qed

theorem auto_optimize_failure_leaves_record_witness:
  "auto_optimize_subject falling_fit4 flat_fit3 english = (False, english)
   \<and> auto_optimize_subject flat_fit4 flat_fit3 (english\<lparr>p25x := 1\<rparr>)
       = (False, english\<lparr>p25x := 1\<rparr>)"
proof -
  have "min_x_hi_of (english\<lparr>p25x := 1\<rparr>) < 0"
    by (simp add: english_def min_x_hi_of_def min_gap_of_def)
  then show ?thesis
    using auto_optimize_failure_leaves_record [of english falling_fit4 flat_fit3]
      auto_optimize_failure_leaves_record [of "english\<lparr>p25x := 1\<rparr>" flat_fit4 flat_fit3]
    by (simp add: falling_never_monotonic)
qed

lemma compute_polynomials_fit:
  assumes "subject_type s = ''general''" "p25x s \<noteq> 0"
  shows "(X4 (compute_polynomials f4 f3 s), X3 (compute_polynomials f4 f3 s),
          X2 (compute_polynomials f4 f3 s), X1 (compute_polynomials f4 f3 s),
          X0 (compute_polynomials f4 f3 s))
       = f4 [min_x s, pzx s, p25x s, p50x s, p75x s, p90x s, p99x s, max_x s]
            [min_y s, pzy s, p25y s, p50y s, p75y s, p90y s, p99y s, max_y s]"
    and "max_fit_error (compute_polynomials f4 f3 s)
       = max_residual
           (f4 [min_x s, pzx s, p25x s, p50x s, p75x s, p90x s, p99x s, max_x s]
               [min_y s, pzy s, p25y s, p50y s, p75y s, p90y s, p99y s, max_y s])
           [min_x s, pzx s, p25x s, p50x s, p75x s, p90x s, p99x s, max_x s]
           [min_y s, pzy s, p25y s, p50y s, p75y s, p90y s, p99y s, max_y s]"
  using assms by (simp_all add: compute_polynomials_def Let_def split: prod.splits)

text \<open>
  With \<open>level_fit4\<close> on English every cell is valid, the score of a cell with
  \<open>LowerBoundary.y = y\<close> is at least \<open>max y (94.1 - y)\<close>, the cells of row
  \<open>pyi = 28\<close> (\<open>y = 46.7074\<close>) all score \<open>47.3926\<close>, and every other row scores
  more.
\<close>

lemma level_valid: "spec_cell_valid level_fit4 s cand"
  by (simp add: spec_cell_valid_def spec_cell_fit_def level_fit4_def split: prod.splits)

lemma level_fit_spec: "spec_cell_fit level_fit4 s (mx, px, py) = (0, 0, 0, 0, py)"
  by (simp add: spec_cell_fit_def level_fit4_def spec_anchors_def)

lemma english_candidate:
  "candidate english (mi, pyi)
     = (45 * real mi / 40, (45 * real mi / 40 + 61) / 2,
        1/10 + (499365/10000) * real pyi / 30)"
  by (simp add: candidate_def english_def min_x_hi_of_def pzy_hi_of_def min_gap_of_def Let_def)

lemma level_error_ge:
  "py \<le> spec_cell_error level_fit4 english (mx, px, py)"
  "941/10 - py \<le> spec_cell_error level_fit4 english (mx, px, py)"
proof -
  have "(mx, 0) \<in> set (spec_anchors english (mx, px, py))"
    by (simp add: spec_anchors_def)
  from spec_cell_error_ge [OF this, of level_fit4]
  have "\<bar>py\<bar> \<le> spec_cell_error level_fit4 english (mx, px, py)"
    by (simp add: level_fit_spec spec_abs_residual_def)
  then show "py \<le> spec_cell_error level_fit4 english (mx, px, py)"
    by linarith
  have "(100, 941/10) \<in> set (spec_anchors english (mx, px, py))"
    by (simp add: spec_anchors_def english_def)
  from spec_cell_error_ge [OF this, of level_fit4]
  have "\<bar>py - 941/10\<bar> \<le> spec_cell_error level_fit4 english (mx, px, py)"
    by (simp add: level_fit_spec spec_abs_residual_def)
  then show "941/10 - py \<le> spec_cell_error level_fit4 english (mx, px, py)"
    by linarith
qed

lemma level_error_28:
  "spec_cell_error level_fit4 english (mx, px, 467074/10000) = 473926/10000"
  by (simp add: spec_cell_error_def level_fit_spec spec_abs_residual_def spec_anchors_def
      english_def)

lemma level_error_row_28:
  "spec_cell_error level_fit4 english (candidate english (mi, 28)) = 473926/10000"
proof -
  have "candidate english (mi, 28)
      = (45 * real mi / 40, (45 * real mi / 40 + 61) / 2, 467074/10000)"
    unfolding english_candidate by simp
  then show ?thesis by (simp only: level_error_28)
qed

lemma level_error_other_rows:
  assumes "pyi < 31" "pyi \<noteq> 28"
  shows "473926/10000 < spec_cell_error level_fit4 english (candidate english (mi, pyi))"
proof -
  let ?py = "1/10 + (499365/10000) * real pyi / 30"
  let ?E = "spec_cell_error level_fit4 english (candidate english (mi, pyi))"
  have ge: "?py \<le> ?E" "941/10 - ?py \<le> ?E"
    unfolding english_candidate by (rule level_error_ge)+
  from assms consider "pyi \<le> 27" | "29 \<le> pyi" by linarith
  then show ?thesis
  proof cases
    case 1
    then have "real pyi \<le> 27" by simp
    then have "?py \<le> 1/10 + (499365/10000) * 27 / 30" by simp
    then show ?thesis using ge(2) by simp
  next
    case 2
    then have "29 \<le> real pyi" by simp
    then have "1/10 + (499365/10000) * 29 / 30 \<le> ?py" by simp
    then show ?thesis using ge(1) by simp
  qed
qed

text \<open>
  Claim C4. When the optimizer succeeds, the record holds the candidate of a cell \<open>k\<close>
  of the 41 by 31 grid (cell \<open>k\<close> is \<open>(k div 31, k mod 31)\<close>, the order of the scan:
  \<open>Min.x = (P25.x - 2g) * (k div 31) / 40\<close>, \<open>LowerBoundary.x\<close> the midpoint,
  \<open>LowerBoundary.y = 0.1 + (0.95 * P25.y - 0.1) * (k mod 31) / 30\<close>). That candidate
  is valid: the quartic fitted to its 8 anchors has derivative at least \<open>-0.001\<close> at
  the 51 sample points. Its score, the maximum absolute residual of that quartic over
  the 8 anchors, is the least among all valid cells of the grid, and every valid cell
  scanned before it has a strictly larger score: ties go to the first cell scanned. The
  coefficients and the fit error stored are the fitted quartic and the score of that
  candidate.
\<close>

theorem boundary_optimizer_first_minimum:
  assumes "auto_optimize_subject fit_poly_4 fit_poly_3 s = (True, s')"
  shows "\<exists>k < 41 * 31.
      (min_x s', pzx s', pzy s') = candidate s (k div 31, k mod 31)
    \<and> min_x s' = (p25x s - 2 * min_gap_of [p25x s, p50x s, p75x s, p90x s, p99x s])
                   * real (k div 31) / 40
    \<and> pzx s' = (min_x s' + p25x s) / 2
    \<and> pzy s' = 1/10 + (p25y s * (95/100) - 1/10) * real (k mod 31) / 30
    \<and> min_y s' = 0
    \<and> spec_cell_valid fit_poly_4 s (min_x s', pzx s', pzy s')
    \<and> (X4 s', X3 s', X2 s', X1 s', X0 s') = spec_cell_fit fit_poly_4 s (min_x s', pzx s', pzy s')
    \<and> max_fit_error s' = spec_cell_error fit_poly_4 s (min_x s', pzx s', pzy s')
    \<and> (\<forall>j < 41 * 31. spec_cell_valid fit_poly_4 s (candidate s (j div 31, j mod 31)) \<longrightarrow>
          spec_cell_error fit_poly_4 s (min_x s', pzx s', pzy s')
            \<le> spec_cell_error fit_poly_4 s (candidate s (j div 31, j mod 31)))
    \<and> (\<forall>j < k. spec_cell_valid fit_poly_4 s (candidate s (j div 31, j mod 31)) \<longrightarrow>
          spec_cell_error fit_poly_4 s (min_x s', pzx s', pzy s')
            < spec_cell_error fit_poly_4 s (candidate s (j div 31, j mod 31)))"
proof -
  have guards: "subject_type s = ''general''" "p25x s \<noteq> 0"
    using assms auto_optimize_True_iff [of fit_poly_4 fit_poly_3 s] by simp_all
  obtain k where k: "k < length grid_cells"
      "candidate_monotonic fit_poly_4 s (grid_cells ! k)"
      "s' = compute_polynomials fit_poly_4 fit_poly_3
          (s\<lparr> min_x := fst (candidate s (grid_cells ! k)),
              pzx := fst (snd (candidate s (grid_cells ! k))),
              pzy := snd (snd (candidate s (grid_cells ! k))), min_y := 0 \<rparr>)"
      "\<forall>j < length grid_cells. candidate_monotonic fit_poly_4 s (grid_cells ! j) \<longrightarrow>
          candidate_err fit_poly_4 s (grid_cells ! k)
            \<le> candidate_err fit_poly_4 s (grid_cells ! j)"
      "\<forall>j < k. candidate_monotonic fit_poly_4 s (grid_cells ! j) \<longrightarrow>
          candidate_err fit_poly_4 s (grid_cells ! k)
            < candidate_err fit_poly_4 s (grid_cells ! j)"
    using auto_optimize_success [OF assms] by blast
  let ?c = "grid_cells ! k"
  let ?s = "s\<lparr> min_x := fst (candidate s ?c), pzx := fst (snd (candidate s ?c)),
              pzy := snd (snd (candidate s ?c)), min_y := 0 \<rparr>"
  have k': "k < 41 * 31" using k(1) by (simp add: grid_cells_length)
  have cell: "?c = (k div 31, k mod 31)" by (rule grid_cells_nth [OF k'])
  have cells: "grid_cells ! j = (j div 31, j mod 31)" if "j < 41 * 31" for j
    by (rule grid_cells_nth [OF that])
  obtain mx px py where c: "candidate s ?c = (mx, px, py)" by (cases "candidate s ?c")
  have g: "subject_type ?s = ''general''" "p25x ?s \<noteq> 0" using guards by simp_all
  have anchors: "(min_x s', pzx s', pzy s') = candidate s ?c" "min_y s' = 0"
    unfolding k(3) by (simp_all add: compute_polynomials_anchors)
  have vals: "mx = (p25x s - 2 * min_gap_of [p25x s, p50x s, p75x s, p90x s, p99x s])
                   * real (k div 31) / 40"
      "px = (mx + p25x s) / 2"
      "py = 1/10 + (p25y s * (95/100) - 1/10) * real (k mod 31) / 30"
    using c unfolding cell
    by (simp_all add: candidate_def min_x_hi_of_def pzy_hi_of_def Let_def)
  have s'c: "min_x s' = mx" "pzx s' = px" "pzy s' = py"
    using anchors(1) c by simp_all
  have xs: "[min_x ?s, pzx ?s, p25x ?s, p50x ?s, p75x ?s, p90x ?s, p99x ?s, max_x ?s]
      = candidate_x_all s ?c"
    and ys: "[min_y ?s, pzy ?s, p25y ?s, p50y ?s, p75y ?s, p90y ?s, p99y ?s, max_y ?s]
      = candidate_y_all s ?c"
    by (simp_all add: candidate_x_all_def candidate_y_all_def c)
  have coeffs: "(X4 s', X3 s', X2 s', X1 s', X0 s') = candidate_coeffs fit_poly_4 s ?c"
    unfolding k(3) compute_polynomials_fit(1) [OF g] xs ys candidate_coeffs_def ..
  have err: "max_fit_error s' = candidate_err fit_poly_4 s ?c"
    unfolding k(3) compute_polynomials_fit(2) [OF g] xs ys candidate_err_def
      candidate_coeffs_def ..
  have valid: "spec_cell_valid fit_poly_4 s (mx, px, py)"
    using k(2) unfolding candidate_monotonic_spec c .
  have coeffs': "(X4 s', X3 s', X2 s', X1 s', X0 s') = spec_cell_fit fit_poly_4 s (mx, px, py)"
    using coeffs unfolding candidate_coeffs_spec c .
  have err': "max_fit_error s' = spec_cell_error fit_poly_4 s (mx, px, py)"
    using err unfolding candidate_err_spec c .
  have least: "spec_cell_error fit_poly_4 s (mx, px, py)
      \<le> spec_cell_error fit_poly_4 s (candidate s (j div 31, j mod 31))"
    if "j < 41 * 31" "spec_cell_valid fit_poly_4 s (candidate s (j div 31, j mod 31))" for j
  proof -
    have "candidate_monotonic fit_poly_4 s (grid_cells ! j)"
      unfolding candidate_monotonic_spec cells [OF that(1)] by (rule that(2))
    moreover have "j < length grid_cells" using that(1) by (simp add: grid_cells_length)
    ultimately have "candidate_err fit_poly_4 s ?c \<le> candidate_err fit_poly_4 s (grid_cells ! j)"
      using k(4) by blast
    then show ?thesis unfolding candidate_err_spec c cells [OF that(1)] .
  qed
  have first: "spec_cell_error fit_poly_4 s (mx, px, py)
      < spec_cell_error fit_poly_4 s (candidate s (j div 31, j mod 31))"
    if "j < k" "spec_cell_valid fit_poly_4 s (candidate s (j div 31, j mod 31))" for j
  proof -
    have j: "j < 41 * 31" using that(1) k' by simp
    have "candidate_monotonic fit_poly_4 s (grid_cells ! j)"
      unfolding candidate_monotonic_spec cells [OF j] by (rule that(2))
    then have "candidate_err fit_poly_4 s ?c < candidate_err fit_poly_4 s (grid_cells ! j)"
      using k(5) that(1) by blast
    then show ?thesis unfolding candidate_err_spec c cells [OF j] .
  qed
  have cand: "(mx, px, py) = candidate s (k div 31, k mod 31)"
    using c unfolding cell by simp
  show ?thesis
    unfolding s'c
    using k' cand vals anchors(2) valid coeffs' err' least first
    unfolding s'c
    by (intro exI [of _ k]) blast
qed

theorem boundary_optimizer_first_minimum_witness:
  "fst (auto_optimize_subject level_fit4 flat_fit3 english)
   \<and> min_x (snd (auto_optimize_subject level_fit4 flat_fit3 english)) = 0
   \<and> pzx (snd (auto_optimize_subject level_fit4 flat_fit3 english)) = 61/2
   \<and> pzy (snd (auto_optimize_subject level_fit4 flat_fit3 english)) = 467074/10000
   \<and> max_fit_error (snd (auto_optimize_subject level_fit4 flat_fit3 english)) = 473926/10000"
proof -
  let ?s' = "snd (auto_optimize_subject level_fit4 flat_fit3 english)"
  have "(0, 0) \<in> set grid_cells" by (simp add: grid_cells_def)
  moreover have "candidate_monotonic level_fit4 english (0, 0)"
    unfolding candidate_monotonic_spec by (rule level_valid)
  ultimately have ok: "fst (auto_optimize_subject level_fit4 flat_fit3 english)"
    unfolding auto_optimize_True_iff using english_guards by blast
  then have "auto_optimize_subject level_fit4 flat_fit3 english = (True, ?s')"
    by (simp add: prod_eq_iff)
  from boundary_optimizer_first_minimum [OF this]
  obtain k where k: "k < 41 * 31"
      and cand: "(min_x ?s', pzx ?s', pzy ?s') = candidate english (k div 31, k mod 31)"
      and err: "max_fit_error ?s'
          = spec_cell_error level_fit4 english (min_x ?s', pzx ?s', pzy ?s')"
      and least: "\<forall>j < 41 * 31.
          spec_cell_valid level_fit4 english (candidate english (j div 31, j mod 31)) \<longrightarrow>
          spec_cell_error level_fit4 english (min_x ?s', pzx ?s', pzy ?s')
            \<le> spec_cell_error level_fit4 english (candidate english (j div 31, j mod 31))"
      and first: "\<forall>j < k.
          spec_cell_valid level_fit4 english (candidate english (j div 31, j mod 31)) \<longrightarrow>
          spec_cell_error level_fit4 english (min_x ?s', pzx ?s', pzy ?s')
            < spec_cell_error level_fit4 english (candidate english (j div 31, j mod 31))"
    by blast
  define E where "E = spec_cell_error level_fit4 english (candidate english (k div 31, k mod 31))"
  have c28: "candidate english (28 div 31, 28 mod 31) = candidate english (0, 28)" by simp
  have "(28::nat) < 41 * 31" by simp
  with least have "spec_cell_error level_fit4 english (min_x ?s', pzx ?s', pzy ?s')
      \<le> spec_cell_error level_fit4 english (candidate english (28 div 31, 28 mod 31))"
    using level_valid by blast
  then have le: "E \<le> 473926/10000"
    unfolding cand E_def c28 level_error_row_28 .
  have m: "k mod 31 = 28"
  proof (rule ccontr)
    assume "k mod 31 \<noteq> 28"
    moreover have "k mod 31 < 31" by simp
    ultimately have "473926/10000 < E"
      unfolding E_def by (rule level_error_other_rows [rotated])
    then show False using le by simp
  qed
  have E: "E = 473926/10000"
    unfolding E_def m by (rule level_error_row_28)
  have d: "k div 31 = 0"
  proof (rule ccontr)
    assume "k div 31 \<noteq> 0"
    then have "1 \<le> k div 31" by simp
    then have "31 * 1 \<le> 31 * (k div 31)" by (rule mult_le_mono2)
    moreover have "k = 31 * (k div 31) + k mod 31" by simp
    ultimately have "28 < k" by linarith
    with first have "spec_cell_error level_fit4 english (min_x ?s', pzx ?s', pzy ?s')
        < spec_cell_error level_fit4 english (candidate english (28 div 31, 28 mod 31))"
      using level_valid by blast
    then have "E < 473926/10000"
      unfolding cand E_def c28 level_error_row_28 .
    then show False using E by simp
  qed
  have vals: "(min_x ?s', pzx ?s', pzy ?s') = (0, 61/2, 467074/10000)"
    unfolding cand m d english_candidate by simp
  have "max_fit_error ?s' = 473926/10000"
    unfolding err cand using E unfolding E_def .
  then show ?thesis using ok vals by simp
qed

section \<open>The batch builder (build\_course\_scales\_2025.py)\<close>

text \<open>
  \<^verbatim>\<open>
  def estimate_max(p90x, p99x, p90y, p99y):
      dx = p99x - p90x
      max_x = min(100, p99x + max(1, dx))
      if p99x > p90x:
          slope = (p99y - p90y) / (p99x - p90x)
          max_y = p99y + slope * (max_x - p99x)
      else:
          max_y = p99y
      max_y = min(100, max(max_y, p99y + 0.5))
      return max_x, max_y
  \<close>
\<close>

definition estimate_max :: "real \<Rightarrow> real \<Rightarrow> real \<Rightarrow> real \<Rightarrow> real \<times> real" where
  "estimate_max q90x q99x q90y q99y =
     (let dx = q99x - q90x;
          mx = min 100 (q99x + max 1 dx);
          my0 = (if q99x > q90x
                 then q99y + (q99y - q90y) / (q99x - q90x) * (mx - q99x)
                 else q99y);
          my = min 100 (max my0 (q99y + 1/2))
      in (mx, my))"

text \<open>
  The row of the output table, a dict of 27 columns
  (\<^verbatim>\<open>'Subject Name'\<close>, \<^verbatim>\<open>'Subject ID'\<close>, \<^verbatim>\<open>'Min X'\<close>, \<^verbatim>\<open>'PZX'\<close>, ...).
\<close>

record course_row =
  cs_Subject_Name :: string
  cs_Subject_ID :: int
  cs_Min_X :: real
  cs_PZX :: real
  cs_P25_X :: real
  cs_P50_X :: real
  cs_P75_X :: real
  cs_P90_X :: real
  cs_P99_X :: real
  cs_Max_X :: real
  cs_Min_Y :: real
  cs_PZY :: real
  cs_P25_Y :: real
  cs_P50_Y :: real
  cs_P75_Y :: real
  cs_P90_Y :: real
  cs_P99_Y :: real
  cs_Max_Y :: real
  cs_X4 :: real
  cs_X3 :: real
  cs_X2 :: real
  cs_X1 :: real
  cs_X0 :: real
  cs_Z3 :: real
  cs_Z2 :: real
  cs_Z1 :: real
  cs_Z0 :: real

text \<open>\<^verbatim>\<open>int(code) if code.isdigit() else 0\<close>, for a code written in ASCII.\<close>

definition code_id :: "string \<Rightarrow> int" where
  "code_id cd =
     (if cd \<noteq> [] \<and> list_all (\<lambda>c. c \<in> set ''0123456789'') cd
      then foldl (\<lambda>n c. 10 * n + (of_char c - 48)) 0 cd else 0)"

text \<open>
  \<^verbatim>\<open>
  def process_general_subject(name, code, p25x, p50x, p75x, p90x, p99x,
                              p25y, p50y, p75y, p90y, p99y):
      MIN_X = 10
      MIN_Y = 0
      # PZX = 0.75 * P25X (matching previous year's pattern)
      pzx = 0.75 * p25x
      max_x, max_y = estimate_max(p90x, p99x, p90y, p99y)
      x_lower_init = [MIN_X, p25x, p50x]
      y_lower_init = [MIN_Y, p25y, p50y]
      quad_coeffs = np.polyfit(x_lower_init, y_lower_init, 2)
      pzy = np.polyval(quad_coeffs, pzx)
      # Ensure PZY is reasonable (between 0 and P25Y)
      pzy = max(0, min(p25y * 0.95, pzy))
      x_all = [MIN_X, pzx, p25x, p50x, p75x, p90x, p99x, max_x]
      y_all = [MIN_Y, pzy, p25y, p50y, p75y, p90y, p99y, max_y]
      X4, X3, X2, X1, X0 = fit_poly_4(x_all, y_all)
      x_lower = [MIN_X, pzx, p25x, p50x]
      y_lower = [MIN_Y, pzy, p25y, p50y]
      Z3, Z2, Z1, Z0 = fit_poly_3(x_lower, y_lower)
      return {
          'Subject Name': name,
          'Subject ID': prev_year_ids.get(name, int(code) if code.isdigit() else 0),
          'Min X': MIN_X, 'PZX': round(pzx, 2), 'P25 X': p25x, ..., 'Max X': round(max_x, 2),
          'Min Y': MIN_Y, 'PZY': round(pzy, 2), 'P25 Y': p25y, ..., 'Max Y': round(max_y, 2),
          'X4': X4, ..., 'X0': X0, 'Z3': Z3, ..., 'Z0': Z0,
      }
  \<close>
\<close>

definition process_general_subject ::
  "(string \<times> int) list \<Rightarrow> (real list \<Rightarrow> real list \<Rightarrow> coeffs2)
     \<Rightarrow> (real list \<Rightarrow> real list \<Rightarrow> coeffs4) \<Rightarrow> (real list \<Rightarrow> real list \<Rightarrow> coeffs3)
     \<Rightarrow> string \<Rightarrow> string \<Rightarrow> real \<Rightarrow> real \<Rightarrow> real \<Rightarrow> real \<Rightarrow> real
     \<Rightarrow> real \<Rightarrow> real \<Rightarrow> real \<Rightarrow> real \<Rightarrow> real \<Rightarrow> course_row" where
  "process_general_subject prev_year_ids polyfit2 fit_poly_4 fit_poly_3
       nm cd q25x q50x q75x q90x q99x q25y q50y q75y q90y q99y =
     (let MIN_X = 10; MIN_Y = 0;
          pz = (75/100) * q25x;
          mxy = estimate_max q90x q99x q90y q99y;
          mx = fst mxy; my = snd mxy;
          quad_coeffs = polyfit2 [MIN_X, q25x, q50x] [MIN_Y, q25y, q50y];
          pzy0 = polyval2 quad_coeffs pz;
          pzy1 = max 0 (min (q25y * (95/100)) pzy0);
          x_all = [MIN_X, pz, q25x, q50x, q75x, q90x, q99x, mx];
          y_all = [MIN_Y, pzy1, q25y, q50y, q75y, q90y, q99y, my];
          c = fit_poly_4 x_all y_all;
          x_lower = [MIN_X, pz, q25x, q50x];
          y_lower = [MIN_Y, pzy1, q25y, q50y];
          z = fit_poly_3 x_lower y_lower
      in (case c of (c4, c3, c2, c1, c0) \<Rightarrow> (case z of (z3, z2, z1, z0) \<Rightarrow>
           \<lparr> cs_Subject_Name = nm,
             cs_Subject_ID = dict_get prev_year_ids nm (code_id cd),
             cs_Min_X = MIN_X, cs_PZX = round2 pz,
             cs_P25_X = q25x, cs_P50_X = q50x, cs_P75_X = q75x, cs_P90_X = q90x,
             cs_P99_X = q99x, cs_Max_X = round2 mx,
             cs_Min_Y = MIN_Y, cs_PZY = round2 pzy1,
             cs_P25_Y = q25y, cs_P50_Y = q50y, cs_P75_Y = q75y, cs_P90_Y = q90y,
             cs_P99_Y = q99y, cs_Max_Y = round2 my,
             cs_X4 = c4, cs_X3 = c3, cs_X2 = c2, cs_X1 = c1, cs_X0 = c0,
             cs_Z3 = z3, cs_Z2 = z2, cs_Z1 = z1, cs_Z0 = z0 \<rparr>)))"

text \<open>
  A concrete \<^verbatim>\<open>np.polyfit(xs, ys, 2)\<close> for three points of distinct abscissae: the
  parabola through them, the only quadratic whose squared residual is 0
  (\<open>interpolating_polyfit2_fits\<close>). numpy returns it up to rounding; the inputs below put
  the value far from where the clamp acts.
\<close>

definition interpolating_polyfit2 :: "real list \<Rightarrow> real list \<Rightarrow> coeffs2" where
  "interpolating_polyfit2 xs ys =
     (case (xs, ys) of
        ([x0, x1, x2], [y0, y1, y2]) \<Rightarrow>
          (let w0 = y0 / ((x0 - x1) * (x0 - x2));
               w1 = y1 / ((x1 - x0) * (x1 - x2));
               w2 = y2 / ((x2 - x0) * (x2 - x1))
           in (w0 + w1 + w2,
               - (w0 * (x1 + x2) + w1 * (x0 + x2) + w2 * (x0 + x1)),
               w0 * x1 * x2 + w1 * x0 * x2 + w2 * x0 * x1))
      | _ \<Rightarrow> (0, 0, 0))"

lemma parabola_form:
  fixes w0 w1 w2 x x0 x1 x2 :: real
  shows "(w0 + w1 + w2) * x ^ 2
       + (- (w0 * (x1 + x2) + w1 * (x0 + x2) + w2 * (x0 + x1))) * x
       + (w0 * x1 * x2 + w1 * x0 * x2 + w2 * x0 * x1)
     = w0 * ((x - x1) * (x - x2)) + w1 * ((x - x0) * (x - x2)) + w2 * ((x - x0) * (x - x1))"
  by (simp add: algebra_simps power2_eq_square)

lemma interpolating_polyfit2_form:
  "polyval2 (interpolating_polyfit2 [x0, x1, x2] [y0, y1, y2]) x =
     y0 / ((x0 - x1) * (x0 - x2)) * ((x - x1) * (x - x2))
   + y1 / ((x1 - x0) * (x1 - x2)) * ((x - x0) * (x - x2))
   + y2 / ((x2 - x0) * (x2 - x1)) * ((x - x0) * (x - x1))"
  unfolding interpolating_polyfit2_def polyval2_def Let_def
  by (simp only: list.case prod.case parabola_form)

lemma interpolating_polyfit2_fits:
  assumes "x0 \<noteq> x1" "x0 \<noteq> x2" "x1 \<noteq> x2"
  shows "polyval2 (interpolating_polyfit2 [x0, x1, x2] [y0, y1, y2]) x0 = y0"
    and "polyval2 (interpolating_polyfit2 [x0, x1, x2] [y0, y1, y2]) x1 = y1"
    and "polyval2 (interpolating_polyfit2 [x0, x1, x2] [y0, y1, y2]) x2 = y2"
  using assms by (simp_all add: interpolating_polyfit2_form)

lemma round_half_even_mono: "x \<le> y \<Longrightarrow> round_half_even x \<le> round_half_even y"
proof -
  assume xy: "x \<le> y"
  have fl: "\<lfloor>x\<rfloor> \<le> \<lfloor>y\<rfloor>" using xy by (rule floor_mono)
  have bx: "\<lfloor>x\<rfloor> \<le> round_half_even x" "round_half_even x \<le> \<lfloor>x\<rfloor> + 1"
    by (simp_all add: round_half_even_def Let_def)
  have by': "\<lfloor>y\<rfloor> \<le> round_half_even y" "round_half_even y \<le> \<lfloor>y\<rfloor> + 1"
    by (simp_all add: round_half_even_def Let_def)
  show ?thesis
  proof (cases "\<lfloor>x\<rfloor> = \<lfloor>y\<rfloor>")
    case True
    then show ?thesis using xy
      by (auto simp: round_half_even_def Let_def)
  next
    case False
    then have "\<lfloor>x\<rfloor> + 1 \<le> \<lfloor>y\<rfloor>" using fl by linarith
    then show ?thesis using bx(2) by'(1) by linarith
  qed
qed

lemma round2_mono: "x \<le> y \<Longrightarrow> round2 x \<le> round2 y"
  by (simp add: round2_def round_half_even_mono divide_right_mono)

lemma round2_zero: "round2 0 = 0"
  by (simp add: round2_def round_half_even_def)

section \<open>The lower boundary anchor\<close>

lemma build_general_anchors:
  "min_x (build_general ids polyfit2 f4 f3 cd nm q25x q50x q75x q90x q99x q25y q50y q75y q90y q99y)
     = max 0 (min 10 (q25x - 2 * min_gap_of [q25x, q50x, q75x, q90x, q99x]))"
  "p25x (build_general ids polyfit2 f4 f3 cd nm q25x q50x q75x q90x q99x q25y q50y q75y q90y q99y)
     = q25x"
  "p25y (build_general ids polyfit2 f4 f3 cd nm q25x q50x q75x q90x q99x q25y q50y q75y q90y q99y)
     = q25y"
  "pzx (build_general ids polyfit2 f4 f3 cd nm q25x q50x q75x q90x q99x q25y q50y q75y q90y q99y)
     = (max 0 (min 10 (q25x - 2 * min_gap_of [q25x, q50x, q75x, q90x, q99x])) + q25x) / 2"
  "pzy (build_general ids polyfit2 f4 f3 cd nm q25x q50x q75x q90x q99x q25y q50y q75y q90y q99y)
     = max 0 (min (q25y * (95/100))
         (polyval2
            (polyfit2 [max 0 (min 10 (q25x - 2 * min_gap_of [q25x, q50x, q75x, q90x, q99x])),
                       q25x, q50x] [0, q25y, q50y])
            ((max 0 (min 10 (q25x - 2 * min_gap_of [q25x, q50x, q75x, q90x, q99x])) + q25x) / 2)))"
  by (simp_all add: build_general_def Let_def compute_polynomials_anchors)

lemma process_general_anchors:
  "cs_Min_X (process_general_subject ids polyfit2 f4 f3 nm cd
      q25x q50x q75x q90x q99x q25y q50y q75y q90y q99y) = 10"
  "cs_P25_X (process_general_subject ids polyfit2 f4 f3 nm cd
      q25x q50x q75x q90x q99x q25y q50y q75y q90y q99y) = q25x"
  "cs_PZX (process_general_subject ids polyfit2 f4 f3 nm cd
      q25x q50x q75x q90x q99x q25y q50y q75y q90y q99y) = round2 (75/100 * q25x)"
  "cs_PZY (process_general_subject ids polyfit2 f4 f3 nm cd
      q25x q50x q75x q90x q99x q25y q50y q75y q90y q99y)
     = round2 (max 0 (min (q25y * (95/100))
         (polyval2 (polyfit2 [10, q25x, q50x] [0, q25y, q50y]) (75/100 * q25x))))"
  by (simp_all add: process_general_subject_def Let_def split: prod.splits)

lemma candidate_parts:
  assumes "k < 41 * 31"
  shows "fst (snd (candidate s (grid_cells ! k)))
       = (fst (candidate s (grid_cells ! k)) + p25x s) / 2"
    and "snd (snd (candidate s (grid_cells ! k)))
       = 1/10 + (pzy_hi_of s - 1/10) * real (k mod 31) / 30"
  by (simp_all add: grid_cells_nth [OF assms] candidate_def Let_def)

lemma auto_optimize_anchors:
  assumes ok: "fst (auto_optimize_subject f4 f3 s)"
  shows "pzx (snd (auto_optimize_subject f4 f3 s))
       = (min_x (snd (auto_optimize_subject f4 f3 s))
          + p25x (snd (auto_optimize_subject f4 f3 s))) / 2"
    and "1/10 \<le> pzy (snd (auto_optimize_subject f4 f3 s))"
    and "pzy (snd (auto_optimize_subject f4 f3 s))
       \<le> 95/100 * p25y (snd (auto_optimize_subject f4 f3 s))"
proof -
  let ?s' = "snd (auto_optimize_subject f4 f3 s)"
  have eq: "auto_optimize_subject f4 f3 s = (True, ?s')"
    using ok by (simp add: prod_eq_iff)
  have hi: "1/10 < pzy_hi_of s"
    using ok auto_optimize_True_iff [of f4 f3 s] by simp
  obtain k where k: "k < length grid_cells"
      "?s' = compute_polynomials f4 f3
          (s\<lparr> min_x := fst (candidate s (grid_cells ! k)),
              pzx := fst (snd (candidate s (grid_cells ! k))),
              pzy := snd (snd (candidate s (grid_cells ! k))), min_y := 0 \<rparr>)"
    using auto_optimize_success [OF eq] by blast
  have k': "k < 41 * 31" using k(1) by (simp add: grid_cells_length)
  have fields: "min_x ?s' = fst (candidate s (grid_cells ! k))"
      "pzx ?s' = fst (snd (candidate s (grid_cells ! k)))"
      "pzy ?s' = snd (snd (candidate s (grid_cells ! k)))"
      "p25x ?s' = p25x s" "p25y ?s' = p25y s"
    by (subst k(2), simp add: compute_polynomials_anchors)+
  show "pzx ?s' = (min_x ?s' + p25x ?s') / 2"
    by (simp add: fields candidate_parts(1) [OF k'])
  have m: "real (k mod 31) \<le> 30"
    using mod_less_divisor [of 31 k] by linarith
  have frac: "0 \<le> real (k mod 31) / 30" "real (k mod 31) / 30 \<le> 1"
    using m by simp_all
  have d: "0 \<le> pzy_hi_of s - 1/10" using hi by simp
  have lo: "0 \<le> (pzy_hi_of s - 1/10) * (real (k mod 31) / 30)"
    using d frac(1) by (rule mult_nonneg_nonneg)
  have up: "(pzy_hi_of s - 1/10) * (real (k mod 31) / 30) \<le> (pzy_hi_of s - 1/10) * 1"
    using frac(2) d by (rule mult_left_mono)
  have py: "pzy ?s' = 1/10 + (pzy_hi_of s - 1/10) * (real (k mod 31) / 30)"
    by (simp add: fields candidate_parts(2) [OF k'])
  show "1/10 \<le> pzy ?s'" using lo py by linarith
  have "(pzy_hi_of s - 1/10) * (real (k mod 31) / 30) \<le> pzy_hi_of s - 1/10"
    using up by simp
  then have "pzy ?s' \<le> pzy_hi_of s" using py by linarith
  moreover have "pzy_hi_of s = 95/100 * p25y ?s'"
    by (simp add: pzy_hi_of_def fields)
  ultimately show "pzy ?s' \<le> 95/100 * p25y ?s'" by linarith
qed

lemma clamp_bounds:
  fixes h v :: real
  assumes "0 \<le> h"
  shows "0 \<le> max 0 (min h v)" and "max 0 (min h v) \<le> h"
  using assms by (simp_all add: max_def min_def)

lemma english_optimizes: "fst (auto_optimize_subject flat_fit4 flat_fit3 english)"
proof -
  have "(0, 0) \<in> set grid_cells" by (simp add: grid_cells_def)
  then show ?thesis
    unfolding auto_optimize_True_iff
    using english_guards flat_always_monotonic by blast
qed

text \<open>
  Claim C5, as amended. For every curve built by the application's \<open>build_general\<close>, and
  after every successful run of the boundary optimizer, \<open>LowerBoundary.x\<close> is the midpoint
  \<open>(Min.x + P25.x) / 2\<close>. The batch builder \<open>process_general_subject\<close> follows another
  rule: \<open>Min.x = 10\<close> and \<open>LowerBoundary.x = 0.75 * P25.x\<close>, written rounded to 2 decimals.
\<close>

theorem lower_boundary_x_midpoint_in_app:
  "pzx (build_general ids polyfit2 f4 f3 cd nm q25x q50x q75x q90x q99x q25y q50y q75y q90y q99y)
     = (min_x (build_general ids polyfit2 f4 f3 cd nm
                 q25x q50x q75x q90x q99x q25y q50y q75y q90y q99y)
        + p25x (build_general ids polyfit2 f4 f3 cd nm
                 q25x q50x q75x q90x q99x q25y q50y q75y q90y q99y)) / 2
   \<and> (fst (auto_optimize_subject f4 f3 s) \<longrightarrow>
        pzx (snd (auto_optimize_subject f4 f3 s))
          = (min_x (snd (auto_optimize_subject f4 f3 s))
             + p25x (snd (auto_optimize_subject f4 f3 s))) / 2)
   \<and> cs_Min_X (process_general_subject ids' polyfit2 f4 f3 nm cd
        q25x q50x q75x q90x q99x q25y q50y q75y q90y q99y) = 10
   \<and> cs_PZX (process_general_subject ids' polyfit2 f4 f3 nm cd
        q25x q50x q75x q90x q99x q25y q50y q75y q90y q99y) = round2 (75/100 * q25x)"
  using auto_optimize_anchors(1) [of f4 f3 s]
  by (simp add: build_general_anchors process_general_anchors)

theorem lower_boundary_x_midpoint_in_app_witness:
  "pzx (snd (auto_optimize_subject flat_fit4 flat_fit3 english))
     = (min_x (snd (auto_optimize_subject flat_fit4 flat_fit3 english))
        + p25x (snd (auto_optimize_subject flat_fit4 flat_fit3 english))) / 2
   \<and> pzx (build_general [] interpolating_polyfit2 flat_fit4 flat_fit3 ''0001'' ''English''
        61 72 83 91 99 (5267/100) (7012/100) (8318/100) (8948/100) (936/10)) = 355/10"
  using lower_boundary_x_midpoint_in_app
    [of "[]" interpolating_polyfit2 flat_fit4 flat_fit3 "''0001''" "''English''"
        61 72 83 91 99 "5267/100" "7012/100" "8318/100" "8948/100" "936/10" english "[]"]
    english_optimizes
  by (simp add: build_general_anchors min_gap_of_def)

text \<open>
  Claim C5 as stated fails for the batch builder: for English (\<open>P25.x = 61\<close>) it writes
  \<open>LowerBoundary.x = 45.75\<close>, and the midpoint of \<open>Min.x = 10\<close> and \<open>P25.x\<close> is 35.5.
\<close>

theorem lower_boundary_x_not_midpoint_in_batch:
  "cs_PZX (process_general_subject [] interpolating_polyfit2 flat_fit4 flat_fit3
       ''English'' ''0001'' 61 72 83 91 99 (5267/100) (7012/100) (8318/100) (8948/100) (936/10))
     = 4575/100
   \<and> (cs_Min_X (process_general_subject [] interpolating_polyfit2 flat_fit4 flat_fit3
       ''English'' ''0001'' 61 72 83 91 99 (5267/100) (7012/100) (8318/100) (8948/100) (936/10))
      + cs_P25_X (process_general_subject [] interpolating_polyfit2 flat_fit4 flat_fit3
       ''English'' ''0001'' 61 72 83 91 99 (5267/100) (7012/100) (8318/100) (8948/100) (936/10)))
     / 2 = 355/10"
  by (simp add: process_general_anchors round2_def round_half_even_def Let_def)

text \<open>
  Claim C6, as amended. The interval is closed: when \<open>P25.y\<close> is not negative,
  \<open>build_general\<close> gives \<open>0 \<le> LowerBoundary.y \<le> 0.95 * P25.y\<close>, and so does
  \<open>process_general_subject\<close> up to its rounding of the stored value to 2 decimals; after
  a successful run of the boundary optimizer \<open>0.1 \<le> LowerBoundary.y \<le> 0.95 * P25.y\<close>.
\<close>

theorem lower_boundary_y_closed_interval:
  "(0 \<le> q25y \<longrightarrow>
      0 \<le> pzy (build_general ids polyfit2 f4 f3 cd nm
                q25x q50x q75x q90x q99x q25y q50y q75y q90y q99y)
    \<and> pzy (build_general ids polyfit2 f4 f3 cd nm
                q25x q50x q75x q90x q99x q25y q50y q75y q90y q99y) \<le> 95/100 * q25y)
   \<and> (fst (auto_optimize_subject f4 f3 s) \<longrightarrow>
        1/10 \<le> pzy (snd (auto_optimize_subject f4 f3 s))
      \<and> pzy (snd (auto_optimize_subject f4 f3 s))
          \<le> 95/100 * p25y (snd (auto_optimize_subject f4 f3 s)))
   \<and> (0 \<le> q25y \<longrightarrow>
      0 \<le> cs_PZY (process_general_subject ids' polyfit2 f4 f3 nm cd
                q25x q50x q75x q90x q99x q25y q50y q75y q90y q99y)
    \<and> cs_PZY (process_general_subject ids' polyfit2 f4 f3 nm cd
                q25x q50x q75x q90x q99x q25y q50y q75y q90y q99y)
        \<le> round2 (95/100 * q25y))"
proof (intro conjI impI)
  assume "fst (auto_optimize_subject f4 f3 s)"
  then show "1/10 \<le> pzy (snd (auto_optimize_subject f4 f3 s))"
    and "pzy (snd (auto_optimize_subject f4 f3 s))
          \<le> 95/100 * p25y (snd (auto_optimize_subject f4 f3 s))"
    by (rule auto_optimize_anchors(2), rule auto_optimize_anchors(3))
next
  assume "0 \<le> q25y"
  then have h: "0 \<le> q25y * (95/100)" by simp
  have "pzy (build_general ids polyfit2 f4 f3 cd nm
                q25x q50x q75x q90x q99x q25y q50y q75y q90y q99y) \<le> q25y * (95/100)"
    unfolding build_general_anchors(5) by (rule clamp_bounds(2) [OF h])
  then show "pzy (build_general ids polyfit2 f4 f3 cd nm
                q25x q50x q75x q90x q99x q25y q50y q75y q90y q99y) \<le> 95/100 * q25y"
    by linarith
next
  show "0 \<le> pzy (build_general ids polyfit2 f4 f3 cd nm
                q25x q50x q75x q90x q99x q25y q50y q75y q90y q99y)"
    by (simp add: build_general_anchors)
next
  let ?v = "max 0 (min (q25y * (95/100))
         (polyval2 (polyfit2 [10, q25x, q50x] [0, q25y, q50y]) (75/100 * q25x)))"
  have "round2 0 \<le> round2 ?v" by (rule round2_mono) simp
  then show "0 \<le> cs_PZY (process_general_subject ids' polyfit2 f4 f3 nm cd
                q25x q50x q75x q90x q99x q25y q50y q75y q90y q99y)"
    by (simp add: process_general_anchors round2_zero)
  assume "0 \<le> q25y"
  then have h: "0 \<le> q25y * (95/100)" by simp
  have "?v \<le> q25y * (95/100)" by (rule clamp_bounds(2) [OF h])
  then have "?v \<le> 95/100 * q25y" by linarith
  then have "round2 ?v \<le> round2 (95/100 * q25y)" by (rule round2_mono)
  then show "cs_PZY (process_general_subject ids' polyfit2 f4 f3 nm cd
                q25x q50x q75x q90x q99x q25y q50y q75y q90y q99y)
        \<le> round2 (95/100 * q25y)"
    by (simp add: process_general_anchors)
qed

theorem lower_boundary_y_closed_interval_witness:
  "1/10 \<le> pzy (snd (auto_optimize_subject flat_fit4 flat_fit3 english))
   \<and> pzy (snd (auto_optimize_subject flat_fit4 flat_fit3 english))
       \<le> 95/100 * p25y (snd (auto_optimize_subject flat_fit4 flat_fit3 english))
   \<and> 0 \<le> pzy (build_general [] interpolating_polyfit2 flat_fit4 flat_fit3 ''0001'' ''English''
        61 72 83 91 99 (5267/100) (7012/100) (8318/100) (8948/100) (936/10))
   \<and> pzy (build_general [] interpolating_polyfit2 flat_fit4 flat_fit3 ''0001'' ''English''
        61 72 83 91 99 (5267/100) (7012/100) (8318/100) (8948/100) (936/10))
       \<le> 95/100 * (5267/100)"
  using lower_boundary_y_closed_interval
    [of "5267/100" "[]" interpolating_polyfit2 flat_fit4 flat_fit3 "''0001''" "''English''"
        61 72 83 91 99 "7012/100" "8318/100" "8948/100" "936/10" english "[]"]
    english_optimizes
  by simp

text \<open>
  Claim C6 as stated fails at the lower end: with \<open>P25 = (60, 20)\<close> and
  \<open>P50 = (70, 40)\<close> the parabola through \<open>(10, 0)\<close>, \<open>P25\<close> and \<open>P50\<close> is
  \<open>-20/3\<close> at the midpoint 35, and the clamp \<^verbatim>\<open>max(0, min(p25y * 0.95, pzy))\<close> stores
  \<open>LowerBoundary.y = 0\<close>, which is not above 0.
\<close>

theorem lower_boundary_y_reaches_zero:
  "pzy (build_general [] interpolating_polyfit2 flat_fit4 flat_fit3 ''0000'' ''Steep''
        60 70 80 90 99 20 40 60 80 95) = 0
   \<and> \<not> 0 < pzy (build_general [] interpolating_polyfit2 flat_fit4 flat_fit3 ''0000'' ''Steep''
        60 70 80 90 99 20 40 60 80 95)"
  by (simp add: build_general_anchors min_gap_of_def interpolating_polyfit2_form)

section \<open>Splitting the population over the bands (build\_lookup\_final.py)\<close>

text \<open>
  \<^verbatim>\<open>
  band_students = {}
  for atar, count in table13:
      band_students[round(atar, 2)] = count

  for range_str, total_count in table14:
      parts = range_str.split("-")
      low = float(parts[0])
      high = float(parts[1])
      bands_in_range = []
      b = high
      while b >= low - 0.001:
          bands_in_range.append(round(b, 2))
          b -= 0.05
      already_assigned = sum(band_students.get(br, 0) for br in bands_in_range if br in band_students)
      unassigned = [br for br in bands_in_range if br not in band_students]
      remaining = total_count - already_assigned
      if remaining <= 0 or len(unassigned) == 0:
          continue
      n = len(unassigned)
      base = remaining // n
      extra = remaining - base * n
      for i, br in enumerate(sorted(unassigned, reverse=True)):
          band_students[br] = base + (1 if i < extra else 0)
  \<close>
  A range of \<^verbatim>\<open>table14\<close> is the triple of its two bounds, as \<^verbatim>\<open>float\<close> reads them from
  the string, and its count. The \<^verbatim>\<open>while\<close> loop ends, \<open>b\<close> falling by 0.05 each turn.
\<close>

function bands_loop :: "real \<Rightarrow> real \<Rightarrow> real list" where
  "bands_loop b low =
     (if b \<ge> low - 1/1000 then round2 b # bands_loop (b - 5/100) low else [])"
  by pat_completeness auto
termination
proof (relation "measure (\<lambda>(b, low). nat (\<lfloor>(b - low + 1/1000) * 20\<rfloor> + 1))")
  show "wf (measure (\<lambda>(b, low). nat (\<lfloor>(b - low + 1/1000) * 20\<rfloor> + 1)))" by simp
next
  fix b low :: real
  assume a: "low - 1/1000 \<le> b"
  have eq: "(b - 5/100 - low + 1/1000) * 20 = (b - low + 1/1000) * 20 - 1"
    by (simp add: algebra_simps)
  have "0 \<le> (b - low + 1/1000) * 20" using a by simp
  then have "0 \<le> \<lfloor>(b - low + 1/1000) * 20\<rfloor>" by simp
  moreover have "\<lfloor>(b - low + 1/1000) * 20 - 1\<rfloor> = \<lfloor>(b - low + 1/1000) * 20\<rfloor> - 1"
    by (metis floor_diff_one)
  ultimately show "((b - 5/100, low), (b, low))
      \<in> measure (\<lambda>(b, low). nat (\<lfloor>(b - low + 1/1000) * 20\<rfloor> + 1))"
    by (simp add: eq)
qed

declare bands_loop.simps [simp del]

type_synonym band_range = "real \<times> real \<times> int"

definition range_bands :: "band_range \<Rightarrow> real list" where
  "range_bands r = (case r of (low, high, total_count) \<Rightarrow> bands_loop high low)"

definition range_total :: "band_range \<Rightarrow> int" where
  "range_total r = (case r of (low, high, total_count) \<Rightarrow> total_count)"

text \<open>The three locals of the loop body, as functions of the dict and the range.\<close>

definition already_assigned :: "(real \<times> int) list \<Rightarrow> band_range \<Rightarrow> int" where
  "already_assigned band_students r =
     sum_list (map (\<lambda>br. dict_get band_students br 0)
                 (filter (\<lambda>br. dict_has band_students br) (range_bands r)))"

definition unassigned :: "(real \<times> int) list \<Rightarrow> band_range \<Rightarrow> real list" where
  "unassigned band_students r =
     filter (\<lambda>br. \<not> dict_has band_students br) (range_bands r)"

definition remaining :: "(real \<times> int) list \<Rightarrow> band_range \<Rightarrow> int" where
  "remaining band_students r = range_total r - already_assigned band_students r"

definition assign_range :: "band_range \<Rightarrow> (real \<times> int) list \<Rightarrow> (real \<times> int) list" where
  "assign_range r band_students =
     (if remaining band_students r \<le> 0 \<or> length (unassigned band_students r) = 0
      then band_students
      else
        (let n = int (length (unassigned band_students r));
             base = remaining band_students r div n;
             extra = remaining band_students r - base * n
         in fold (\<lambda>(i, br) d. AList.update br (base + (if int i < extra then 1 else 0)) d)
              (enumerate 0 (rev (sort (unassigned band_students r)))) band_students))"

definition load_table13 :: "(real \<times> int) list \<Rightarrow> (real \<times> int) list" where
  "load_table13 table13 =
     fold (\<lambda>(atar, count) d. AList.update (round2 atar) count d) table13 []"

definition band_students_of :: "(real \<times> int) list \<Rightarrow> band_range list \<Rightarrow> (real \<times> int) list" where
  "band_students_of table13 table14 = fold assign_range table14 (load_table13 table13)"

definition range_sum :: "(real \<times> int) list \<Rightarrow> band_range \<Rightarrow> int" where
  "range_sum band_students r =
     sum_list (map (\<lambda>br. dict_get band_students br 0) (range_bands r))"

lemma round2_bounds: "round2 x \<le> x + 1/200" "x - 1/200 \<le> round2 x"
proof -
  have "\<bar>round2 x - x\<bar> \<le> 1/200" by (rule round2_near)
  then show "round2 x \<le> x + 1/200" "x - 1/200 \<le> round2 x" by linarith+
qed

lemma strict_desc_distinct: "sorted_wrt (>) (xs :: real list) \<Longrightarrow> distinct xs"
  by (induction xs) auto

lemma bands_loop_upper: "x \<in> set (bands_loop b low) \<Longrightarrow> x \<le> b + 1/200"
proof (induction b low rule: bands_loop.induct)
  case (1 b low)
  show ?case
  proof (cases "b \<ge> low - 1/1000")
    case True
    then have "x = round2 b \<or> x \<in> set (bands_loop (b - 5/100) low)"
      using "1.prems" by (subst (asm) bands_loop.simps) simp
    then show ?thesis
    proof
      assume "x = round2 b"
      then show ?thesis using round2_bounds(1) [of b] by simp
    next
      assume "x \<in> set (bands_loop (b - 5/100) low)"
      then have "x \<le> b - 5/100 + 1/200" using "1.IH" True by simp
      then show ?thesis by simp
    qed
  next
    case False
    then show ?thesis using "1.prems" by (subst (asm) bands_loop.simps) simp
  qed
qed

lemma bands_loop_strict: "sorted_wrt (>) (bands_loop b low)"
proof (induction b low rule: bands_loop.induct)
  case (1 b low)
  show ?case
  proof (cases "b \<ge> low - 1/1000")
    case True
    have "\<forall>x \<in> set (bands_loop (b - 5/100) low). x < round2 b"
    proof
      fix x assume "x \<in> set (bands_loop (b - 5/100) low)"
      then have "x \<le> b - 5/100 + 1/200" by (rule bands_loop_upper)
      moreover have "b - 1/200 \<le> round2 b" by (rule round2_bounds(2))
      ultimately show "x < round2 b" by linarith
    qed
    then show ?thesis
      using "1.IH" True by (subst bands_loop.simps) simp
  next
    case False
    then show ?thesis by (subst bands_loop.simps) simp
  qed
qed

lemma bands_loop_distinct: "distinct (bands_loop b low)"
  by (rule strict_desc_distinct) (rule bands_loop_strict)

text \<open>
  A range can take its count: nothing remains to assign, or something remains and a band
  of the range has no count yet.
\<close>

definition range_fillable :: "(real \<times> int) list \<Rightarrow> band_range \<Rightarrow> bool" where
  "range_fillable band_students r =
     (remaining band_students r = 0
      \<or> (0 < remaining band_students r \<and> unassigned band_students r \<noteq> []))"

lemma sum_list_filter_split:
  fixes f :: "'a \<Rightarrow> int"
  shows "sum_list (map f xs)
     = sum_list (map f (filter P xs)) + sum_list (map f (filter (\<lambda>x. \<not> P x) xs))"
  by (induction xs) simp_all

lemma sum_list_map_zero: "sum_list (map (\<lambda>x. 0 :: int) xs) = 0"
  by (induction xs) simp_all

lemma dict_get_update:
  "dict_get (AList.update k v d) k' dflt = (if k' = k then v else dict_get d k' dflt)"
  by (simp add: dict_get_def update_conv')

lemma dict_has_update:
  "dict_has (AList.update k v d) k' \<longleftrightarrow> k' = k \<or> dict_has d k'"
  by (simp add: dict_has_def update_conv')

lemma dict_get_absent: "\<not> dict_has d k \<Longrightarrow> dict_get d k dflt = dflt"
  by (simp add: dict_has_def dict_get_def)

lemma fold_update_frame:
  "k \<notin> set S \<Longrightarrow>
   map_of (fold (\<lambda>(i, br) d. AList.update br (f i) d) (enumerate n S) d) k = map_of d k"
  by (induction S arbitrary: n d) (simp_all add: update_conv')

lemma fold_update_values:
  "distinct S \<Longrightarrow>
   map (\<lambda>br. dict_get (fold (\<lambda>(i, br) d. AList.update br (f i) d) (enumerate n S) d) br dflt) S
     = map f [n..<n + length S]"
proof (induction S arbitrary: n d)
  case Nil
  then show ?case by simp
next
  case (Cons x S)
  let ?d1 = "AList.update x (f n) d"
  have x: "x \<notin> set S" and dS: "distinct S" using Cons.prems by simp_all
  have hd: "dict_get (fold (\<lambda>(i, br) d. AList.update br (f i) d) (enumerate (Suc n) S) ?d1) x dflt
      = f n"
    unfolding dict_get_def fold_update_frame [OF x] by (simp add: update_conv')
  have tl: "map (\<lambda>br. dict_get (fold (\<lambda>(i, br) d. AList.update br (f i) d)
                 (enumerate (Suc n) S) ?d1) br dflt) S
      = map f [Suc n..<Suc n + length S]"
    by (rule Cons.IH [OF dS])
  have "n < n + length (x # S)" by simp
  then have "[n..<n + length (x # S)] = n # [Suc n..<n + length (x # S)]"
    by (rule upt_conv_Cons)
  then have "[n..<n + length (x # S)] = n # [Suc n..<Suc n + length S]"
    by simp
  then show ?case using hd tl by simp
qed

lemma sum_extra:
  "0 \<le> extra \<Longrightarrow>
   sum_list (map (\<lambda>i. base + (if int i < extra then 1 else 0)) [0..<n])
     = base * int n + min (int n) extra"
  by (induction n) (simp_all add: algebra_simps min_def)

lemma sum_list_sorted_desc:
  fixes f :: "real \<Rightarrow> int"
  shows "sum_list (map f (rev (sort xs))) = sum_list (map f xs)"
proof -
  have "mset (map f (rev (sort xs))) = mset (map f xs)" by simp
  then have "sum_mset (mset (map f (rev (sort xs)))) = sum_mset (mset (map f xs))" by simp
  then show ?thesis by (simp only: sum_mset_sum_list)
qed

lemma assign_range_frame:
  "k \<notin> set (range_bands r) \<Longrightarrow> map_of (assign_range r d) k = map_of d k"
proof -
  assume k: "k \<notin> set (range_bands r)"
  then have "k \<notin> set (rev (sort (unassigned d r)))"
    by (simp add: unassigned_def)
  then show ?thesis
    by (simp add: assign_range_def Let_def fold_update_frame)
qed

lemma assign_range_frame_assigned:
  "dict_has d k \<Longrightarrow> map_of (assign_range r d) k = map_of d k"
proof -
  assume "dict_has d k"
  then have "k \<notin> set (rev (sort (unassigned d r)))"
    by (simp add: unassigned_def)
  then show ?thesis
    by (simp add: assign_range_def Let_def fold_update_frame)
qed

lemma range_sum_split:
  "range_sum d' r
     = sum_list (map (\<lambda>br. dict_get d' br 0) (filter (dict_has d) (range_bands r)))
     + sum_list (map (\<lambda>br. dict_get d' br 0) (unassigned d r))"
  unfolding range_sum_def unassigned_def by (rule sum_list_filter_split)

lemma assign_range_conserves:
  assumes "range_fillable d r"
  shows "range_sum (assign_range r d) r = range_total r"
proof (cases "remaining d r = 0")
  case True
  have "map (\<lambda>br. dict_get d br 0) (unassigned d r) = map (\<lambda>br. 0) (unassigned d r)"
    by (intro map_cong) (simp_all add: unassigned_def dict_get_absent)
  then have "sum_list (map (\<lambda>br. dict_get d br 0) (unassigned d r))
      = sum_list (map (\<lambda>br. 0 :: int) (unassigned d r))"
    by (simp only:)
  also have "\<dots> = 0" by (rule sum_list_map_zero)
  finally have "sum_list (map (\<lambda>br. dict_get d br 0) (unassigned d r)) = 0" .
  then have "range_sum d r = already_assigned d r"
    unfolding range_sum_split [of d r d] by (simp add: already_assigned_def)
  then show ?thesis
    using True by (simp add: assign_range_def remaining_def)
next
  case False
  then have pos: "0 < remaining d r" and ne: "unassigned d r \<noteq> []"
    using assms by (simp_all add: range_fillable_def)
  let ?U = "unassigned d r"
  let ?S = "rev (sort ?U)"
  let ?n = "int (length ?U)"
  let ?base = "remaining d r div ?n"
  let ?extra = "remaining d r - ?base * ?n"
  let ?f = "\<lambda>i. ?base + (if int i < ?extra then 1 else 0)"
  let ?d' = "fold (\<lambda>(i, br) d. AList.update br (?f i) d) (enumerate 0 ?S) d"
  have d': "assign_range r d = ?d'"
    using pos ne by (simp add: assign_range_def Let_def)
  have npos: "0 < ?n" using ne by simp
  have extra: "?extra = remaining d r mod ?n"
    by (simp add: minus_div_mult_eq_mod)
  have ex_bounds: "0 \<le> ?extra" "?extra < ?n"
    using npos by (simp_all only: extra pos_mod_sign pos_mod_bound)
  have dist: "distinct ?S"
    using bands_loop_distinct by (simp add: unassigned_def range_bands_def split: prod.splits)
  have "map (\<lambda>br. dict_get ?d' br 0) ?S = map ?f [0..<0 + length ?S]"
    by (rule fold_update_values [OF dist])
  then have "sum_list (map (\<lambda>br. dict_get ?d' br 0) ?S) = sum_list (map ?f [0..<length ?U])"
    by simp
  also have "\<dots> = ?base * ?n + min ?n ?extra"
    by (rule sum_extra [OF ex_bounds(1)])
  also have "\<dots> = remaining d r"
    using ex_bounds(2) by (simp add: min_def)
  finally have newsum: "sum_list (map (\<lambda>br. dict_get ?d' br 0) ?U) = remaining d r"
    by (simp only: sum_list_sorted_desc)
  have old: "sum_list (map (\<lambda>br. dict_get ?d' br 0) (filter (dict_has d) (range_bands r)))
      = already_assigned d r"
  proof -
    have "map (\<lambda>br. dict_get ?d' br 0) (filter (dict_has d) (range_bands r))
        = map (\<lambda>br. dict_get d br 0) (filter (dict_has d) (range_bands r))"
      using assign_range_frame_assigned [of d _ r]
      by (intro map_cong) (simp_all add: dict_get_def d')
    then show ?thesis
      unfolding already_assigned_def by (rule arg_cong [where f = sum_list])
  qed
  show ?thesis
    unfolding d' range_sum_split [of ?d' r d] old newsum
    by (simp add: remaining_def)
qed

text \<open>
  The last value of \<^verbatim>\<open>running\<close>, which the script prints, and \<^verbatim>\<open>cumulative\<close> at the lowest
  band, the last of \<^verbatim>\<open>sorted_bands\<close>.
\<close>

definition running_total :: "(real \<times> int) list \<Rightarrow> int" where
  "running_total band_students =
     snd (cumulative_loop band_students (sorted_bands_of band_students) 0 [])"

definition lowest_cumulative :: "(real \<times> int) list \<Rightarrow> int" where
  "lowest_cumulative band_students =
     dict_get (fst (cumulative_loop band_students (sorted_bands_of band_students) 0 []))
       (last (sorted_bands_of band_students)) 0"

lemma cumulative_loop_running:
  "snd (cumulative_loop bs ks run cum) = run + sum_list (map (\<lambda>k. dict_get bs k 0) ks)"
  by (induction ks arbitrary: run cum) (simp_all add: Let_def)

lemma cumulative_loop_last:
  "ks \<noteq> [] \<Longrightarrow>
   dict_get (fst (cumulative_loop bs ks run cum)) (last ks) 0
     = snd (cumulative_loop bs ks run cum)"
proof (induction ks arbitrary: run cum)
  case Nil
  then show ?case by simp
next
  case (Cons k ks)
  show ?case
  proof (cases ks)
    case Nil
    then show ?thesis by (simp add: Let_def dict_get_update)
  next
    case (Cons k' rest)
    then have "ks \<noteq> []" by simp
    from Cons.IH [OF this] show ?thesis
      using Cons by (simp add: Let_def)
  qed
qed

lemma dict_has_keys: "dict_has d k \<longleftrightarrow> k \<in> set (map fst d)"
  by (simp add: dict_has_def map_of_eq_None_iff)

lemma running_total_keys:
  "running_total bs = sum_list (map (\<lambda>k. dict_get bs k 0) (map fst bs))"
  unfolding running_total_def cumulative_loop_running sorted_bands_of_def
  by (simp only: sum_list_sorted_desc add_0)

lemma lowest_cumulative_running:
  "bs \<noteq> [] \<Longrightarrow> lowest_cumulative bs = running_total bs"
  unfolding lowest_cumulative_def running_total_def
  by (rule cumulative_loop_last)
    (auto simp: sorted_bands_of_def dest: arg_cong [where f = length])

lemma range_fillable_cong:
  assumes "\<forall>k \<in> set (range_bands r). map_of d1 k = map_of d k"
  shows "range_fillable d1 r = range_fillable d r"
proof -
  have has: "filter (dict_has d1) (range_bands r) = filter (dict_has d) (range_bands r)"
    using assms by (intro filter_cong) (simp_all add: dict_has_def)
  have nhas: "filter (\<lambda>br. \<not> dict_has d1 br) (range_bands r)
      = filter (\<lambda>br. \<not> dict_has d br) (range_bands r)"
    using assms by (intro filter_cong) (simp_all add: dict_has_def)
  have "map (\<lambda>br. dict_get d1 br 0) (filter (dict_has d) (range_bands r))
      = map (\<lambda>br. dict_get d br 0) (filter (dict_has d) (range_bands r))"
    using assms by (intro map_cong) (simp_all add: dict_get_def)
  then have "already_assigned d1 r = already_assigned d r"
    unfolding already_assigned_def has by (rule arg_cong [where f = sum_list])
  then show ?thesis
    by (simp add: range_fillable_def remaining_def unassigned_def nhas)
qed

lemma range_sum_cong:
  assumes "\<forall>k \<in> set (range_bands r). map_of d1 k = map_of d k"
  shows "range_sum d1 r = range_sum d r"
proof -
  have "map (\<lambda>br. dict_get d1 br 0) (range_bands r)
      = map (\<lambda>br. dict_get d br 0) (range_bands r)"
    using assms by (intro map_cong) (simp_all add: dict_get_def)
  then show ?thesis
    unfolding range_sum_def by (rule arg_cong [where f = sum_list])
qed

lemma fold_assign_ranges:
  assumes "distinct (concat (map range_bands rs))" "\<forall>r \<in> set rs. range_fillable d r"
  shows "(\<forall>r \<in> set rs. range_sum (fold assign_range rs d) r = range_total r)
       \<and> (\<forall>k. k \<notin> set (concat (map range_bands rs))
            \<longrightarrow> map_of (fold assign_range rs d) k = map_of d k)"
  using assms
proof (induction rs arbitrary: d)
  case Nil
  then show ?case by simp
next
  case (Cons r rs)
  let ?d1 = "assign_range r d"
  have dis: "distinct (concat (map range_bands rs))"
    and disj: "set (range_bands r) \<inter> set (concat (map range_bands rs)) = {}"
    using Cons.prems(1) by simp_all
  have fill1: "\<forall>r' \<in> set rs. range_fillable ?d1 r'"
  proof
    fix r' assume r': "r' \<in> set rs"
    have "\<forall>k \<in> set (range_bands r'). map_of ?d1 k = map_of d k"
    proof
      fix k assume "k \<in> set (range_bands r')"
      then have "k \<in> set (concat (map range_bands rs))" using r' by auto
      then have "k \<notin> set (range_bands r)" using disj by auto
      then show "map_of ?d1 k = map_of d k" by (rule assign_range_frame)
    qed
    then have "range_fillable ?d1 r' = range_fillable d r'" by (rule range_fillable_cong)
    then show "range_fillable ?d1 r'" using Cons.prems(2) r' by simp
  qed
  have IH: "\<forall>r' \<in> set rs. range_sum (fold assign_range rs ?d1) r' = range_total r'"
      "\<forall>k. k \<notin> set (concat (map range_bands rs))
            \<longrightarrow> map_of (fold assign_range rs ?d1) k = map_of ?d1 k"
    using Cons.IH [OF dis fill1] by simp_all
  have "\<forall>k \<in> set (range_bands r). map_of (fold assign_range rs ?d1) k = map_of ?d1 k"
    using IH(2) disj by auto
  then have "range_sum (fold assign_range rs ?d1) r = range_sum ?d1 r"
    by (rule range_sum_cong)
  also have "\<dots> = range_total r"
    using Cons.prems(2) by (simp add: assign_range_conserves)
  finally have this_range: "range_sum (fold assign_range rs ?d1) r = range_total r" .
  have frame: "\<forall>k. k \<notin> set (concat (map range_bands (r # rs)))
            \<longrightarrow> map_of (fold assign_range (r # rs) d) k = map_of d k"
    using IH(2) assign_range_frame [of _ r d] by simp
  show ?case using this_range IH(1) frame by simp
qed

lemma assign_range_distinct:
  "distinct (map fst d) \<Longrightarrow> distinct (map fst (assign_range r d))"
proof -
  have fold_distinct: "distinct (map fst d) \<Longrightarrow>
      distinct (map fst (fold (\<lambda>(i, br) d. AList.update br (f i) d) xs d))"
    for f :: "nat \<Rightarrow> int" and xs :: "(nat \<times> real) list" and d :: "(real \<times> int) list"
    by (induction xs arbitrary: d) (simp_all add: distinct_update split: prod.splits)
  assume "distinct (map fst d)"
  then show ?thesis
    by (simp add: assign_range_def Let_def fold_distinct)
qed

lemma fold_assign_distinct:
  "distinct (map fst d) \<Longrightarrow> distinct (map fst (fold assign_range rs d))"
  by (induction rs arbitrary: d) (simp_all add: assign_range_distinct)

lemma load_table13_keys:
  "distinct (map fst (load_table13 table13))"
  "set (map fst (load_table13 table13)) = set (map (\<lambda>(atar, count). round2 atar) table13)"
proof -
  have gen: "distinct (map fst d) \<Longrightarrow>
      distinct (map fst (fold (\<lambda>(atar, count) d. AList.update (round2 atar) count d) t d))
    \<and> set (map fst (fold (\<lambda>(atar, count) d. AList.update (round2 atar) count d) t d))
       = set (map (\<lambda>(atar, count). round2 atar) t) \<union> set (map fst d)"
    for t :: "(real \<times> int) list" and d :: "(real \<times> int) list"
  proof (induction t arbitrary: d)
    case Nil
    then show ?case by simp
  next
    case (Cons x t)
    obtain a c where x: "x = (a, c)" by (cases x)
    have "distinct (map fst (AList.update (round2 a) c d))"
      using Cons.prems by (rule distinct_update)
    from Cons.IH [OF this] show ?case
      by (auto simp: x dom_update)
  qed
  show "distinct (map fst (load_table13 table13))"
    and "set (map fst (load_table13 table13)) = set (map (\<lambda>(atar, count). round2 atar) table13)"
    using gen [of "[]" table13] by (simp_all add: load_table13_def)
qed

lemma sum_list_concat_map:
  fixes f :: "'a \<Rightarrow> int"
  shows "sum_list (map f (concat xss)) = sum_list (map (\<lambda>xs. sum_list (map f xs)) xss)"
  by (induction xss) simp_all

lemma band_students_total:
  assumes dis: "distinct (concat (map range_bands table14))"
    and cover: "set (map (\<lambda>(atar, count). round2 atar) table13)
                  \<subseteq> set (concat (map range_bands table14))"
    and fill: "\<forall>r \<in> set table14. range_fillable (load_table13 table13) r"
  shows "running_total (band_students_of table13 table14) = sum_list (map range_total table14)"
proof -
  let ?init = "load_table13 table13"
  let ?d = "band_students_of table13 table14"
  let ?C = "concat (map range_bands table14)"
  let ?v = "\<lambda>k. dict_get ?d k 0"
  have sums: "\<forall>r \<in> set table14. range_sum ?d r = range_total r"
    and frame: "\<forall>k. k \<notin> set ?C \<longrightarrow> map_of ?d k = map_of ?init k"
    using fold_assign_ranges [OF dis fill] by (simp_all add: band_students_of_def)
  have keys_d: "distinct (map fst ?d)"
    unfolding band_students_of_def
    by (rule fold_assign_distinct) (rule load_table13_keys(1))
  have sub: "set (map fst ?d) \<subseteq> set ?C"
  proof
    fix k assume k: "k \<in> set (map fst ?d)"
    show "k \<in> set ?C"
    proof (rule ccontr)
      assume n: "k \<notin> set ?C"
      then have eq: "map_of ?d k = map_of ?init k" using frame by simp
      have "dict_has ?d k" using k by (simp only: dict_has_keys)
      then have "dict_has ?init k" using eq by (simp add: dict_has_def)
      then have in0: "k \<in> set (map fst ?init)" by (simp only: dict_has_keys)
      have "set (map fst ?init) \<subseteq> set ?C"
        using cover by (simp only: load_table13_keys(2))
      then show False using in0 n by blast
    qed
  qed
  have zero: "\<forall>k \<in> set ?C - set (map fst ?d). ?v k = 0"
    by (auto simp: dict_get_def map_of_eq_None_iff [THEN iffD2] split: option.splits)
  have "running_total ?d = sum_list (map ?v (map fst ?d))"
    by (rule running_total_keys)
  also have "\<dots> = sum ?v (set (map fst ?d))"
    using keys_d by (simp only: sum_list_distinct_conv_sum_set)
  also have "\<dots> = sum ?v (set ?C)"
    by (rule sum.mono_neutral_left) (use sub zero in simp_all)
  also have "\<dots> = sum_list (map ?v ?C)"
    using dis by (simp only: sum_list_distinct_conv_sum_set)
  also have "\<dots> = sum_list (map (\<lambda>xs. sum_list (map ?v xs)) (map range_bands table14))"
    by (rule sum_list_concat_map)
  also have "\<dots> = sum_list (map (\<lambda>r. range_sum ?d r) table14)"
    by (simp add: range_sum_def comp_def)
  also have "\<dots> = sum_list (map range_total table14)"
    using sums by (intro arg_cong [where f = sum_list] map_cong) simp_all
  finally show ?thesis .
qed

subsection \<open>Two small distributions\<close>

definition example_table13 :: "(real \<times> int) list" where
  "example_table13 = [(9995/100, 37), (999/10, 37)]"

definition top_range :: band_range where
  "top_range = (9985/100, 9995/100, 112)"

definition next_range :: band_range where
  "next_range = (997/10, 998/10, 100)"

definition example_table14 :: "band_range list" where
  "example_table14 = [top_range, next_range]"

definition short_table13 :: "(real \<times> int) list" where
  "short_table13 = [(9995/100, 10)]"

definition full_range :: band_range where
  "full_range = (9995/100, 9995/100, 15)"

definition loaded13 :: "(real \<times> int) list" where
  "loaded13 = [(9995/100, 37), (999/10, 37)]"

definition after_top_range :: "(real \<times> int) list" where
  "after_top_range = [(9995/100, 37), (999/10, 37), (9985/100, 38)]"

definition after_next_range :: "(real \<times> int) list" where
  "after_next_range =
     [(9995/100, 37), (999/10, 37), (9985/100, 38), (998/10, 34), (9975/100, 33), (997/10, 33)]"

lemma example_bands:
  "range_bands top_range = [9995/100, 999/10, 9985/100]"
  "range_bands next_range = [998/10, 9975/100, 997/10]"
  "range_bands full_range = [9995/100]"
  by (simp_all add: top_range_def next_range_def full_range_def range_bands_def
      bands_loop.simps round2_def round_half_even_def Let_def)

lemma example_totals:
  "range_total top_range = 112" "range_total next_range = 100" "range_total full_range = 15"
  by (simp_all add: top_range_def next_range_def full_range_def range_total_def)

lemma example_load:
  "load_table13 example_table13 = loaded13"
  "load_table13 short_table13 = short_table13"
  by (simp_all add: load_table13_def example_table13_def short_table13_def loaded13_def
      round2_def round_half_even_def Let_def)

lemma example_remaining:
  "remaining loaded13 top_range = 38"
  "unassigned loaded13 top_range = [9985/100]"
  "remaining loaded13 next_range = 100"
  "remaining short_table13 full_range = 5"
  "unassigned short_table13 full_range = []"
  by (simp_all add: remaining_def already_assigned_def unassigned_def example_totals
      example_bands dict_has_def dict_get_def loaded13_def short_table13_def)

lemma example_unassigned_next:
  "unassigned loaded13 next_range \<noteq> []"
  "unassigned after_top_range next_range = [998/10, 9975/100, 997/10]"
  "remaining after_top_range next_range = 100"
  by (simp_all add: remaining_def already_assigned_def unassigned_def example_totals
      example_bands dict_has_def dict_get_def loaded13_def after_top_range_def)

lemma example_first_range: "assign_range top_range loaded13 = after_top_range"
  unfolding assign_range_def example_remaining
  by (simp add: Let_def enumerate_eq_zip loaded13_def after_top_range_def)

lemma example_second_range: "assign_range next_range after_top_range = after_next_range"
  unfolding assign_range_def example_unassigned_next
  by (simp add: Let_def enumerate_eq_zip after_top_range_def after_next_range_def)

lemma example_band_students_of:
  "band_students_of example_table13 example_table14 = after_next_range"
  by (simp add: band_students_of_def example_load example_table14_def example_first_range
      example_second_range)

text \<open>
  Claim C9, as amended. For a range whose remaining count is 0, or is positive with at
  least one band of the range still without a count, the counts of the bands of the range
  sum to the range total after the split. When that holds for every range on the counts of
  \<^verbatim>\<open>table13\<close>, the ranges share no band and every band of \<^verbatim>\<open>table13\<close> lies in a range,
  the running total, and with it the cumulative count at the lowest band, is the sum of
  the range totals.
\<close>

theorem band_split_conserves_totals:
  "(range_fillable d r \<longrightarrow> range_sum (assign_range r d) r = range_total r)
   \<and> (distinct (concat (map range_bands table14))
      \<and> set (map (\<lambda>(atar, count). round2 atar) table13)
            \<subseteq> set (concat (map range_bands table14))
      \<and> (\<forall>r' \<in> set table14. range_fillable (load_table13 table13) r')
      \<longrightarrow> running_total (band_students_of table13 table14)
            = sum_list (map range_total table14)
        \<and> (band_students_of table13 table14 \<noteq> []
            \<longrightarrow> lowest_cumulative (band_students_of table13 table14)
                  = sum_list (map range_total table14)))"
  using assign_range_conserves [of d r] band_students_total [of table14 table13]
    lowest_cumulative_running [of "band_students_of table13 table14"]
  by simp

theorem band_split_conserves_totals_witness:
  "range_sum (assign_range next_range (load_table13 example_table13)) next_range = 100
   \<and> running_total (band_students_of example_table13 example_table14) = 212
   \<and> lowest_cumulative (band_students_of example_table13 example_table14) = 212"
proof -
  have fill: "range_fillable (load_table13 example_table13) top_range"
      "range_fillable (load_table13 example_table13) next_range"
    by (simp_all add: range_fillable_def example_load example_remaining
        example_unassigned_next)
  have dis: "distinct (concat (map range_bands example_table14))"
    by (simp add: example_table14_def example_bands)
  have cover: "set (map (\<lambda>(atar, count). round2 atar) example_table13)
      \<subseteq> set (concat (map range_bands example_table14))"
    by (simp add: example_table13_def example_table14_def example_bands
        round2_def round_half_even_def Let_def)
  have all: "\<forall>r' \<in> set example_table14. range_fillable (load_table13 example_table13) r'"
    using fill by (simp add: example_table14_def)
  have ne: "band_students_of example_table13 example_table14 \<noteq> []"
    by (simp add: example_band_students_of after_next_range_def)
  have tot: "sum_list (map range_total example_table14) = 212"
    by (simp add: example_table14_def example_totals)
  show ?thesis
    using band_split_conserves_totals
      [of "load_table13 example_table13" next_range example_table14 example_table13]
      fill(2) dis cover all ne tot
    by (simp add: example_totals)
qed

text \<open>
  Claim C9 as stated fails for a range whose bands all have a count already: with band
  99.95 at 10 and the range 99.95-99.95 at 15 the remaining count is 5, not negative, the
  guard \<^verbatim>\<open>len(unassigned) == 0\<close> skips the range, and its bands sum to 10, not 15.
\<close>

theorem band_split_short_when_no_band_left:
  "remaining (load_table13 short_table13) full_range = 5
   \<and> range_sum (assign_range full_range (load_table13 short_table13)) full_range = 10
   \<and> range_total full_range = 15"
proof -
  have same: "assign_range full_range short_table13 = short_table13"
    unfolding assign_range_def example_remaining by simp
  have sum: "range_sum short_table13 full_range = 10"
    by (simp add: range_sum_def example_bands dict_get_def short_table13_def)
  show ?thesis
    by (simp add: example_load same sum example_remaining example_totals)
qed

end
